theory Spec2Isabelle
  imports Main "HOL-Library.AList" "HOL-Library.Sublist"
begin

section \<open>Python values, dictionaries and errors\<close>

text \<open>
  A record of \<^verbatim>\<open>brewery/ds/base.py\<close> is a Python \<^verbatim>\<open>dict\<close> whose keys are strings. The
  functions of the module only ever ask of a value whether \<^verbatim>\<open>type(value) == dict\<close>, so a
  value is either a dictionary (\<open>Dict\<close>) or anything else (\<open>Leaf\<close>: \<^verbatim>\<open>None\<close>, a number, a
  string, a list, ...). A dictionary is an association list with its items in the order
  \<^verbatim>\<open>items()\<close> yields them; \<^verbatim>\<open>d[k] = v\<close> replaces the value of a key in place or adds the
  key at the end. The theorems below hold for every order of the items of their input.
\<close>

datatype 'a pyval = Leaf 'a | Dict "(string \<times> 'a pyval) list"

type_synonym 'a dict = "(string \<times> 'a pyval) list"

datatype error = TypeError | ValueError | KeyError | IndexError | AttributeError

fun is_leaf :: "'a pyval \<Rightarrow> bool" where
  "is_leaf (Leaf a) = True"
| "is_leaf (Dict d) = False"

text \<open>\<^verbatim>\<open>result.update(collapsed)\<close>: every item of the argument is stored, in its order.\<close>

definition dict_update :: "('k \<times> 'v) list \<Rightarrow> ('k \<times> 'v) list \<Rightarrow> ('k \<times> 'v) list" where
  "dict_update result other = fold (\<lambda>(k, v). AList.update k v) other result"

text \<open>A record is flat when none of its values is a dictionary.\<close>

definition flat :: "'a dict \<Rightarrow> bool" where
  "flat record = list_all is_leaf (map snd record)"

section \<open>Splitting and joining key paths\<close>

text \<open>
  \<^verbatim>\<open>key.split(separator)\<close> for a non-empty separator: the string is cut at every
  occurrence of the separator found scanning from the left, occurrences do not overlap.
  \<open>split_from sep seg s\<close> has read the segment \<open>seg\<close> so far and \<open>s\<close> is still to read.
  An empty separator raises \<^verbatim>\<open>ValueError\<close>.
\<close>

function split_from :: "string \<Rightarrow> string \<Rightarrow> string \<Rightarrow> string list" where
  "split_from sep seg [] = [seg]"
| "split_from sep seg (c # cs) =
     (if sep \<noteq> [] \<and> prefix sep (c # cs)
      then seg # split_from sep [] (drop (length sep) (c # cs))
      else split_from sep (seg @ [c]) cs)"
  by pat_completeness auto
termination
  by (relation "measure (\<lambda>(sep, seg, s). length s)") auto

definition py_split :: "string \<Rightarrow> string \<Rightarrow> error + string list" where
  "py_split key sep = (if sep = [] then Inl ValueError else Inr (split_from sep [] key))"

text \<open>\<^verbatim>\<open>separator.join(path)\<close>, the key a path stands for.\<close>

fun join :: "string \<Rightarrow> string list \<Rightarrow> string" where
  "join sep [] = []"
| "join sep [p] = p"
| "join sep (p # q # ps) = p @ sep @ join sep (q # ps)"

section \<open>The record path transform\<close>

subsection \<open>\<^verbatim>\<open>expand_record\<close>\<close>

text \<open>
  The body of the loop of \<^verbatim>\<open>expand_record\<close> for one key: walk \<^verbatim>\<open>path[:-1]\<close> from the
  dictionary \<open>current\<close>, creating an empty dictionary for a part that is missing, and
  store the value under \<^verbatim>\<open>path[-1]\<close>. The source mutates the dictionaries it walks
  through; the model returns \<open>current\<close> as it is afterwards. When a part holds a value
  that is not a dictionary, the next operation on it (\<^verbatim>\<open>part not in current\<close>,
  \<^verbatim>\<open>current[part] = {}\<close>, \<^verbatim>\<open>current[part]\<close> or the final item assignment) raises
  \<^verbatim>\<open>TypeError\<close> for every built-in type that is not a mapping. \<^verbatim>\<open>path[-1]\<close> of an empty
  path raises \<^verbatim>\<open>IndexError\<close>.
\<close>

fun set_path :: "'a dict \<Rightarrow> string list \<Rightarrow> 'a pyval \<Rightarrow> error + 'a dict" where
  "set_path current [] val = Inl IndexError"
| "set_path current [final] val = Inr (AList.update final val current)"
| "set_path current (part # rest) val =
     (case map_of current part of
        None \<Rightarrow>
          (case set_path [] rest val of
             Inl e \<Rightarrow> Inl e
           | Inr sub \<Rightarrow> Inr (AList.update part (Dict sub) current))
      | Some (Dict d) \<Rightarrow>
          (case set_path d rest val of
             Inl e \<Rightarrow> Inl e
           | Inr sub \<Rightarrow> Inr (AList.update part (Dict sub) current))
      | Some (Leaf a) \<Rightarrow> Inl TypeError)"

fun expand_items :: "'a dict \<Rightarrow> string \<Rightarrow> 'a dict \<Rightarrow> error + 'a dict" where
  "expand_items [] sep result = Inr result"
| "expand_items ((key, val) # rest) sep result =
     (case py_split key sep of
        Inl e \<Rightarrow> Inl e
      | Inr path \<Rightarrow>
          (case set_path result path val of
             Inl e \<Rightarrow> Inl e
           | Inr result' \<Rightarrow> expand_items rest sep result'))"

definition expand_record :: "'a dict \<Rightarrow> string \<Rightarrow> error + 'a dict" where
  "expand_record record sep = expand_items record sep []"

subsection \<open>\<^verbatim>\<open>collapse_record\<close>\<close>

text \<open>
  \<^verbatim>\<open>if root: collapsed_key = root + separator + key else: collapsed_key = key\<close>. A root
  that is \<^verbatim>\<open>None\<close> or the empty string is false.
\<close>

definition collapsed_key :: "string option \<Rightarrow> string \<Rightarrow> string \<Rightarrow> string" where
  "collapsed_key root sep key =
     (case root of
        None \<Rightarrow> key
      | Some r \<Rightarrow> if r = [] then key else r @ sep @ key)"

text \<open>The loop of \<^verbatim>\<open>collapse_record\<close> over the items still to visit, \<open>result\<close> threaded.\<close>

fun collapse_items :: "'a dict \<Rightarrow> string \<Rightarrow> string option \<Rightarrow> 'a dict \<Rightarrow> 'a dict" where
  "collapse_items [] sep root result = result"
| "collapse_items ((key, Leaf a) # rest) sep root result =
     collapse_items rest sep root (AList.update (collapsed_key root sep key) (Leaf a) result)"
| "collapse_items ((key, Dict d) # rest) sep root result =
     collapse_items rest sep root
       (dict_update result (collapse_items d sep (Some (collapsed_key root sep key)) []))"

definition collapse_record :: "'a dict \<Rightarrow> string \<Rightarrow> string option \<Rightarrow> 'a dict" where
  "collapse_record record sep root = collapse_items record sep root []"

section \<open>Fields\<close>

text \<open>
  The attributes of a \<^verbatim>\<open>Field\<close> and the elements of a field description hold arbitrary
  Python objects. An \<open>atom\<close> is such an object when it is not a container: \<^verbatim>\<open>None\<close>, a
  boolean, an integer, a float (mantissa and exponent; the code never computes with one),
  a string (\<^verbatim>\<open>str\<close> or \<^verbatim>\<open>unicode\<close>), or an instance of the class named (\<open>AObj\<close>).
  \<open>truthy\<close> is the truth value Python's \<^verbatim>\<open>if\<close> and \<^verbatim>\<open>not\<close> give it.
\<close>

datatype atom = ANone | ABool bool | AInt int | AFloat int int | AStr string | AObj string

fun truthy :: "atom \<Rightarrow> bool" where
  "truthy ANone = False"
| "truthy (ABool b) = b"
| "truthy (AInt i) = (i \<noteq> 0)"
| "truthy (AFloat m e) = (m \<noteq> 0)"
| "truthy (AStr s) = (s \<noteq> [])"
| "truthy (AObj c) = True"

text \<open>Class \<^verbatim>\<open>Field\<close> of \<^verbatim>\<open>brewery/ds/base.py\<close> and its table of default analytical types.\<close>

record Field =
  name :: atom
  label :: atom
  storage_type :: atom
  analytical_type :: atom
  concrete_storage_type :: atom
  missing_values :: atom

definition default_analytical_type :: "(string \<times> string) list" where
  "default_analytical_type =
     [(''unknown'', ''typeless''), (''string'', ''typeless''), (''text'', ''typeless''),
      (''integer'', ''discrete''), (''float'', ''range''), (''date'', ''typeless'')]"

text \<open>\<^verbatim>\<open>Field.__init__\<close> with all its parameters given.\<close>

definition Field_init :: "atom \<Rightarrow> atom \<Rightarrow> atom \<Rightarrow> atom \<Rightarrow> atom \<Rightarrow> atom \<Rightarrow> Field" where
  "Field_init n l st at cst mv =
     \<lparr>name = n, label = l, storage_type = st, analytical_type = at,
      concrete_storage_type = cst, missing_values = mv\<rparr>"

text \<open>\<^verbatim>\<open>Field(name)\<close>: every other parameter takes its default.\<close>

definition Field_named :: "atom \<Rightarrow> Field" where
  "Field_named n = Field_init n ANone (AStr ''unknown'') ANone ANone ANone"

definition Field_parameters :: "string list" where
  "Field_parameters = [''name'', ''label'', ''storage_type'', ''analytical_type'',
                       ''concrete_storage_type'', ''missing_values'']"

definition kwarg :: "(string \<times> atom) list \<Rightarrow> string \<Rightarrow> atom \<Rightarrow> atom" where
  "kwarg d k dflt = (case map_of d k of None \<Rightarrow> dflt | Some v \<Rightarrow> v)"

text \<open>
  \<^verbatim>\<open>Field(**d)\<close>: a key that is no parameter of \<^verbatim>\<open>__init__\<close>, or a missing \<^verbatim>\<open>name\<close>, raises
  \<^verbatim>\<open>TypeError\<close>.
\<close>

definition Field_kwargs :: "(string \<times> atom) list \<Rightarrow> error + Field" where
  "Field_kwargs d =
     (if \<not> list_all (\<lambda>k. k \<in> set Field_parameters) (map fst d) then Inl TypeError
      else case map_of d ''name'' of
        None \<Rightarrow> Inl TypeError
      | Some n \<Rightarrow>
          Inr (Field_init n (kwarg d ''label'' ANone) (kwarg d ''storage_type'' (AStr ''unknown''))
                 (kwarg d ''analytical_type'' ANone) (kwarg d ''concrete_storage_type'' ANone)
                 (kwarg d ''missing_values'' ANone)))"

section \<open>The field list builder\<close>

text \<open>
  A field description is a string, a tuple, a dictionary, or an object of any other
  type, which \<^verbatim>\<open>fieldlist\<close> refuses with \<^verbatim>\<open>ValueError\<close>.
\<close>

datatype descr = DStr string | DTuple "atom list" | DDict "(string \<times> atom) list" | DOther

text \<open>\<^verbatim>\<open>if k in obj: d[k] = obj[k]\<close>\<close>

definition copy_key ::
  "string \<Rightarrow> (string \<times> atom) list \<Rightarrow> (string \<times> atom) list \<Rightarrow> (string \<times> atom) list" where
  "copy_key k obj d = (case map_of obj k of None \<Rightarrow> d | Some v \<Rightarrow> AList.update k v d)"

text \<open>
  The dictionary \<^verbatim>\<open>d\<close> that the loop body of \<^verbatim>\<open>fieldlist\<close> builds for one description. It
  starts with \<^verbatim>\<open>storage_type\<close> \<^verbatim>\<open>"unknown"\<close> and \<^verbatim>\<open>analytical_type\<close> \<^verbatim>\<open>"typeless"\<close>.
  \<^verbatim>\<open>obj[0]\<close> of an empty tuple raises \<^verbatim>\<open>IndexError\<close>, \<^verbatim>\<open>obj["name"]\<close> of a dictionary
  without that key raises \<^verbatim>\<open>KeyError\<close>.
\<close>

definition describe :: "descr \<Rightarrow> error + (string \<times> atom) list" where
  "describe obj =
     (let d = [(''storage_type'', AStr ''unknown''), (''analytical_type'', AStr ''typeless'')] in
      case obj of
        DStr s \<Rightarrow> Inr (AList.update ''name'' (AStr s) d)
      | DTuple xs \<Rightarrow>
          (case xs of
             [] \<Rightarrow> Inl IndexError
           | n # _ \<Rightarrow>
               (let d = AList.update ''name'' n d in
                if length xs > 1
                then (let d = AList.update ''storage_type'' (xs ! 1) d in
                      if length xs > 2 then Inr (AList.update ''analytical_type'' (xs ! 2) d)
                      else Inr d)
                else Inr d))
      | DDict m \<Rightarrow>
          (case map_of m ''name'' of
             None \<Rightarrow> Inl KeyError
           | Some n \<Rightarrow>
               Inr (copy_key ''adapter_storage_type'' m
                     (copy_key ''analytical_type'' m
                       (copy_key ''storage_type'' m
                         (copy_key ''label'' m (AList.update ''name'' n d))))))
      | DOther \<Rightarrow> Inl ValueError)"

text \<open>
  The rest of the loop body. When \<^verbatim>\<open>analytical_type\<close> is not a key of \<^verbatim>\<open>d\<close> the source
  reads \<^verbatim>\<open>Field.default_analytical_types\<close>, an attribute the class does not have (the
  table is \<^verbatim>\<open>default_analytical_type\<close>): \<^verbatim>\<open>AttributeError\<close>. Then \<^verbatim>\<open>Field(**d)\<close>.
\<close>

definition field_of_descr :: "descr \<Rightarrow> error + Field" where
  "field_of_descr obj =
     (case describe obj of
        Inl e \<Rightarrow> Inl e
      | Inr d \<Rightarrow>
          if map_of d ''analytical_type'' = None then Inl AttributeError
          else Field_kwargs d)"

text \<open>\<^verbatim>\<open>fieldlist\<close>: the loop over the descriptions; the first error ends it.\<close>

fun fieldlist :: "descr list \<Rightarrow> error + Field list" where
  "fieldlist [] = Inr []"
| "fieldlist (obj # rest) =
     (case field_of_descr obj of
        Inl e \<Rightarrow> Inl e
      | Inr f \<Rightarrow>
          (case fieldlist rest of
             Inl e \<Rightarrow> Inl e
           | Inr fs \<Rightarrow> Inr (f # fs)))"

text \<open>
  What the claims about \<^verbatim>\<open>fieldlist\<close> speak of: the name a description gives, whether it
  gives an analytical type itself, whether \<^verbatim>\<open>fieldlist\<close> accepts it, and whether a field's
  analytical type is the entry of the default table for its storage type.
\<close>

fun descr_name :: "descr \<Rightarrow> atom option" where
  "descr_name (DStr s) = Some (AStr s)"
| "descr_name (DTuple xs) = (case xs of [] \<Rightarrow> None | n # _ \<Rightarrow> Some n)"
| "descr_name (DDict m) = map_of m ''name''"
| "descr_name DOther = None"

fun gives_analytical_type :: "descr \<Rightarrow> bool" where
  "gives_analytical_type (DStr s) = False"
| "gives_analytical_type (DTuple xs) = (length xs > 2)"
| "gives_analytical_type (DDict m) = (map_of m ''analytical_type'' \<noteq> None)"
| "gives_analytical_type DOther = False"

definition accepted :: "descr \<Rightarrow> bool" where
  "accepted obj = (case field_of_descr obj of Inl e \<Rightarrow> False | Inr f \<Rightarrow> True)"

definition analytical_from_table :: "Field \<Rightarrow> bool" where
  "analytical_from_table f =
     (case storage_type f of
        AStr s \<Rightarrow> map_option AStr (map_of default_analytical_type s) = Some (analytical_type f)
      | _ \<Rightarrow> False)"

section \<open>The SQL adapter\<close>

subsection \<open>\<^verbatim>\<open>SQLDataset.fields\<close>\<close>

text \<open>
  The table \<^verbatim>\<open>_sql_to_brewery_types\<close> of \<^verbatim>\<open>brewery/ds/sql_streams.py\<close>: the class of the
  SQL library, the storage type and the analytical type. A class is written by its name.
\<close>

definition sql_to_brewery_types :: "(string \<times> string \<times> string) list" where
  "sql_to_brewery_types =
     [(''UnicodeText'', ''text'', ''typeless''),
      (''Text'', ''text'', ''typeless''),
      (''Unicode'', ''string'', ''set''),
      (''String'', ''string'', ''set''),
      (''Integer'', ''integer'', ''discrete''),
      (''Numeric'', ''float'', ''range''),
      (''DateTime'', ''date'', ''typeless''),
      (''Date'', ''date'', ''typeless''),
      (''Time'', ''unknown'', ''typeless''),
      (''Interval'', ''unknown'', ''typeless''),
      (''Boolean'', ''boolean'', ''flag''),
      (''Binary'', ''unknown'', ''typeless'')]"

text \<open>
  The loop \<^verbatim>\<open>for conv in _sql_to_brewery_types\<close>: the first entry whose class the column's
  type is a subclass of sets both types and ends the loop. \<^verbatim>\<open>issubclass\<close> is the class
  hierarchy of the SQL library, a parameter here.
\<close>

fun convert ::
  "(string \<Rightarrow> string \<Rightarrow> bool) \<Rightarrow> (string \<times> string \<times> string) list \<Rightarrow> string \<Rightarrow> Field \<Rightarrow> Field"
where
  "convert issubclass [] cls fld = fld"
| "convert issubclass ((c, st, at) # rest) cls fld =
     (if issubclass cls c
      then fld\<lparr>storage_type := AStr st, analytical_type := AStr at\<rparr>
      else convert issubclass rest cls fld)"

text \<open>
  The body of the loop over the columns, for the column \<^verbatim>\<open>column\<close> with \<^verbatim>\<open>column.name\<close> and
  the class of \<^verbatim>\<open>column.type\<close>. After the table loop, \<^verbatim>\<open>if not field.storage_type\<close> assigns
  to \<^verbatim>\<open>field.storaget_tpye\<close>, which is no attribute of the model and leaves \<^verbatim>\<open>storage_type\<close>
  as it is; \<^verbatim>\<open>if not field.analytical_type\<close> assigns \<^verbatim>\<open>"unknown"\<close>.
\<close>

definition column_field ::
  "(string \<Rightarrow> string \<Rightarrow> bool) \<Rightarrow> (string \<times> string \<times> string) list \<Rightarrow> atom \<times> string \<Rightarrow> Field"
where
  "column_field issubclass types column =
     (let fld = (Field_named (fst column))\<lparr>concrete_storage_type := AObj (snd column)\<rparr>;
          fld = convert issubclass types (snd column) fld
      in if \<not> truthy (analytical_type fld) then fld\<lparr>analytical_type := AStr ''unknown''\<rparr>
         else fld)"

text \<open>
  A dataset: the columns of its table and the attribute \<^verbatim>\<open>_fields\<close>. The property
  \<^verbatim>\<open>fields\<close> returns the list and the dataset with the list stored.
\<close>

record SQLDataset =
  columns :: "(atom \<times> string) list"
  stored_fields :: "Field list option"

definition SQLDataset_fields ::
  "(string \<Rightarrow> string \<Rightarrow> bool) \<Rightarrow> (string \<times> string \<times> string) list \<Rightarrow> SQLDataset
   \<Rightarrow> Field list \<times> SQLDataset"
where
  "SQLDataset_fields issubclass types ds =
     (let computed = map (column_field issubclass types) (columns ds) in
      case stored_fields ds of
        None \<Rightarrow> (computed, ds\<lparr>stored_fields := Some computed\<rparr>)
      | Some fs \<Rightarrow>
          if fs \<noteq> [] then (fs, ds) else (computed, ds\<lparr>stored_fields := Some computed\<rparr>))"

text \<open>
  The part of the SQL library's class hierarchy that the table meets: each class with
  itself and its ancestors among the column types. \<^verbatim>\<open>NullType\<close> is the type the library
  gives a column whose type it does not know.
\<close>

definition sql_classes :: "(string \<times> string list) list" where
  "sql_classes =
     [(''UnicodeText'', [''UnicodeText'', ''Text'', ''String'']),
      (''Text'', [''Text'', ''String'']),
      (''Unicode'', [''Unicode'', ''String'']),
      (''SmallInteger'', [''SmallInteger'', ''Integer'']),
      (''Float'', [''Float'', ''Numeric''])]"

definition sql_issubclass :: "string \<Rightarrow> string \<Rightarrow> bool" where
  "sql_issubclass cls c =
     (case map_of sql_classes cls of None \<Rightarrow> cls = c | Some ancestors \<Rightarrow> c \<in> set ancestors)"

subsection \<open>\<^verbatim>\<open>SQLDataTarget.append\<close>\<close>

text \<open>
  A target stream: the attributes \<^verbatim>\<open>_field_names\<close> and \<^verbatim>\<open>_fields\<close>, the column names of its
  dataset (\<open>None\<close> before \<^verbatim>\<open>initialize\<close>, when the stream has neither \<^verbatim>\<open>dataset\<close> nor
  \<^verbatim>\<open>insert_command\<close>), and the records it has handed to \<^verbatim>\<open>insert_command.execute\<close>.
\<close>

record SQLDataTarget =
  stored_field_names :: "atom list option"
  target_fields :: "Field list option"
  dataset_field_names :: "atom list option"
  executed :: "(atom \<times> atom) list list"

text \<open>The property \<^verbatim>\<open>field_names\<close>; an empty list is false, as \<^verbatim>\<open>None\<close> is.\<close>

definition field_names :: "SQLDataTarget \<Rightarrow> error + atom list \<times> SQLDataTarget" where
  "field_names t =
     (let from_fields =
        (case target_fields t of
           None \<Rightarrow> None
         | Some fs \<Rightarrow> if fs \<noteq> [] then Some (map name fs) else None);
          from_dataset =
        (case dataset_field_names t of
           None \<Rightarrow> Inl AttributeError
         | Some names \<Rightarrow> Inr (names, t\<lparr>stored_field_names := Some names\<rparr>))
      in case stored_field_names t of
           None \<Rightarrow> (case from_fields of None \<Rightarrow> from_dataset | Some names \<Rightarrow> Inr (names, t))
         | Some stored \<Rightarrow>
             if stored \<noteq> [] then Inr (stored, t)
             else (case from_fields of None \<Rightarrow> from_dataset | Some names \<Rightarrow> Inr (names, t)))"

text \<open>\<^verbatim>\<open>dict(pairs)\<close>: a later pair replaces an earlier one with the same key.\<close>

definition py_dict :: "('k \<times> 'v) list \<Rightarrow> ('k \<times> 'v) list" where
  "py_dict pairs = dict_update [] pairs"

text \<open>The object given to \<^verbatim>\<open>append\<close>: a dictionary or a sequence of values.\<close>

datatype appended = ARecord "(atom \<times> atom) list" | ARow "atom list"

definition execute :: "SQLDataTarget \<Rightarrow> (atom \<times> atom) list \<Rightarrow> error + SQLDataTarget" where
  "execute t record =
     (case dataset_field_names t of
        None \<Rightarrow> Inl AttributeError
      | Some names \<Rightarrow> Inr (t\<lparr>executed := executed t @ [record]\<rparr>))"

definition append :: "SQLDataTarget \<Rightarrow> appended \<Rightarrow> error + SQLDataTarget" where
  "append t obj =
     (case obj of
        ARecord record \<Rightarrow> execute t record
      | ARow row \<Rightarrow>
          (case field_names t of
             Inl e \<Rightarrow> Inl e
           | Inr (names, t') \<Rightarrow> execute t' (py_dict (zip names row))))"

section \<open>The type probe\<close>

text \<open>
  Modelled from the spec: the class \<^verbatim>\<open>brewery.dq.FieldTypeProbe\<close>, which \<^verbatim>\<open>read_fields\<close>
  uses and which is not among the sources. A probe holds the name of its field and the set
  of the kinds of the values it has seen; \<^verbatim>\<open>probe(value)\<close> files the value under one of the
  kinds null, boolean, integer, float, text-like and other, and adds the kind.
\<close>

datatype kind = KNull | KBoolean | KInteger | KFloat | KText | KOther

fun classify :: "atom pyval \<Rightarrow> kind" where
  "classify (Leaf ANone) = KNull"
| "classify (Leaf (ABool b)) = KBoolean"
| "classify (Leaf (AInt i)) = KInteger"
| "classify (Leaf (AFloat m e)) = KFloat"
| "classify (Leaf (AStr s)) = KText"
| "classify (Leaf (AObj c)) = KOther"
| "classify (Dict d) = KOther"

record FieldTypeProbe =
  field :: string
  kinds :: "kind list"

definition FieldTypeProbe_init :: "string \<Rightarrow> FieldTypeProbe" where
  "FieldTypeProbe_init full_key = \<lparr>field = full_key, kinds = []\<rparr>"

definition probe :: "FieldTypeProbe \<Rightarrow> atom pyval \<Rightarrow> FieldTypeProbe" where
  "probe p v = p\<lparr>kinds := List.insert (classify v) (kinds p)\<rparr>"

text \<open>
  Modelled from the spec: the kind a probe resolves to, which is the one kind seen when
  exactly one kind that is not null was seen, and none otherwise.
\<close>

definition unique_kind :: "kind list \<Rightarrow> kind option" where
  "unique_kind ks = (case filter (\<lambda>k. k \<noteq> KNull) ks of [k] \<Rightarrow> Some k | _ \<Rightarrow> None)"

text \<open>
  \<^verbatim>\<open>read_fields\<close> reads the attribute \<^verbatim>\<open>unique_storage_type\<close> of a probe and compares it with
  the string \<^verbatim>\<open>"unicode"\<close>. Neither the sources nor the spec say under which names a probe
  reports what it has seen, so the driver below takes the attribute as a parameter, the
  function \<open>report\<close> from a probe to \<^verbatim>\<open>None\<close> or a string, and the theorems about the driver
  hold for every such function. The report below is one such function, which names the
  kind a probe resolves to by a Python type of that kind; it is used only where the method
  is evaluated at a concrete input, and no statement about the method in general rests
  on it.
\<close>

fun kind_name :: "kind \<Rightarrow> string" where
  "kind_name KNull = ''NoneType''"
| "kind_name KBoolean = ''bool''"
| "kind_name KInteger = ''int''"
| "kind_name KFloat = ''float''"
| "kind_name KText = ''unicode''"
| "kind_name KOther = ''object''"

definition unique_storage_type :: "FieldTypeProbe \<Rightarrow> string option" where
  "unique_storage_type p = map_option kind_name (unique_kind (kinds p))"

section \<open>The schema inference driver\<close>

text \<open>
  \<^verbatim>\<open>DataSource.read_fields\<close>. Its state is the list \<^verbatim>\<open>keys\<close> and the dictionary \<^verbatim>\<open>probes\<close>. The
  nested function \<^verbatim>\<open>probe_record\<close> computes the full key as
  \<^verbatim>\<open>parent + "." + key\<close> when \<^verbatim>\<open>parent\<close> is true, and as \<^verbatim>\<open>key\<close> otherwise.
\<close>

type_synonym probes = "string list \<times> (string \<times> FieldTypeProbe) list"

definition full_key :: "string option \<Rightarrow> string \<Rightarrow> string" where
  "full_key parent key =
     (case parent of
        None \<Rightarrow> key
      | Some p \<Rightarrow> if p = [] then key else p @ ''.'' @ key)"

text \<open>
  The last lines of the loop body of \<^verbatim>\<open>probe_record\<close>: a key that has no probe yet gets one
  and is appended to \<^verbatim>\<open>keys\<close>; the probe of the key then sees the value.
\<close>

definition probe_value :: "string \<Rightarrow> atom pyval \<Rightarrow> probes \<Rightarrow> probes" where
  "probe_value k v st =
     (case map_of (snd st) k of
        None \<Rightarrow> (fst st @ [k], AList.update k (probe (FieldTypeProbe_init k) v) (snd st))
      | Some p \<Rightarrow> (fst st, AList.update k (probe p v) (snd st)))"

text \<open>
  \<^verbatim>\<open>probe_record(record, parent)\<close> as the loop over the items still to visit. \<open>expand\<close> is
  the attribute \<^verbatim>\<open>self.expand\<close> of the stream: when it is true a value that is a dictionary
  is not probed itself, its items are.
\<close>

fun probe_record :: "bool \<Rightarrow> atom dict \<Rightarrow> string option \<Rightarrow> probes \<Rightarrow> probes" where
  "probe_record expand [] parent st = st"
| "probe_record expand ((key, Leaf a) # rest) parent st =
     probe_record expand rest parent (probe_value (full_key parent key) (Leaf a) st)"
| "probe_record expand ((key, Dict d) # rest) parent st =
     (if expand
      then probe_record expand rest parent
             (probe_record expand d (Some (full_key parent key)) st)
      else probe_record expand rest parent (probe_value (full_key parent key) (Dict d) st))"

text \<open>
  The loop \<^verbatim>\<open>for record in self.records()\<close>. The stream is the list of the records it
  will yield; the loop returns the state and the records it has not taken from the stream.
  \<open>count\<close> is the counter of the source, \<^verbatim>\<open>if limit and count >= limit: break\<close> its test after
  a record has been probed. (\<^verbatim>\<open>print record\<close> writes to the standard output only.) A record
  of the stream yields its items in the order it is given in. The dictionary that
  \<^verbatim>\<open>collapse_record\<close> has built yields its items in an order of its own, which in Python 2 is
  not the order in which they were stored: \<open>items\<close> is that order, a parameter.
\<close>

fun scan ::
  "(atom dict \<Rightarrow> atom dict) \<Rightarrow> bool \<Rightarrow> int \<Rightarrow> bool \<Rightarrow> int \<Rightarrow> atom dict list \<Rightarrow> probes
   \<Rightarrow> probes \<times> atom dict list"
where
  "scan items expand limit collapse count [] st = (st, [])"
| "scan items expand limit collapse count (record # rest) st =
     (let record = (if collapse then items (collapse_record record ''.'' None) else record);
          st = probe_record expand record None st
      in if limit \<noteq> 0 \<and> count \<ge> limit then (st, rest)
         else scan items expand limit collapse (count + 1) rest st)"

text \<open>
  The body of the second loop, \<^verbatim>\<open>for key in keys\<close>, given the attributes \<^verbatim>\<open>field\<close> and
  \<^verbatim>\<open>unique_storage_type\<close> of the probe of the key. \<^verbatim>\<open>not storage_type\<close> holds of \<^verbatim>\<open>None\<close> and
  of the empty string.
\<close>

definition resolve_field :: "string \<Rightarrow> string option \<Rightarrow> Field" where
  "resolve_field probe_field storage =
     (let fld = Field_named (AStr probe_field) in
      case storage of
        None \<Rightarrow> fld\<lparr>storage_type := AStr ''unknown''\<rparr>
      | Some st \<Rightarrow>
          if st = [] then fld\<lparr>storage_type := AStr ''unknown''\<rparr>
          else if st = ''unicode'' then fld\<lparr>storage_type := AStr ''string''\<rparr>
          else fld\<lparr>storage_type := AStr ''unknown'', concrete_storage_type := AStr st\<rparr>)"

definition resolve :: "(FieldTypeProbe \<Rightarrow> string option) \<Rightarrow> FieldTypeProbe \<Rightarrow> Field" where
  "resolve report p = resolve_field (field p) (report p)"

fun resolve_keys ::
  "(FieldTypeProbe \<Rightarrow> string option) \<Rightarrow> string list \<Rightarrow> (string \<times> FieldTypeProbe) list
   \<Rightarrow> error + Field list"
where
  "resolve_keys report [] probes = Inr []"
| "resolve_keys report (key # rest) probes =
     (case map_of probes key of
        None \<Rightarrow> Inl KeyError
      | Some p \<Rightarrow>
          (case resolve_keys report rest probes of
             Inl e \<Rightarrow> Inl e
           | Inr fs \<Rightarrow> Inr (resolve report p # fs)))"

text \<open>
  \<^verbatim>\<open>read_fields(limit, collapse)\<close> of a stream with the attribute \<^verbatim>\<open>expand\<close> and the records
  given: the field list, which is also stored in \<^verbatim>\<open>self._fields\<close>, and the records left in
  the stream. \<open>read_fields_with\<close> is the method for a given report of the probes and a
  given order of the items of a collapsed record; \<open>read_fields\<close> is the instance that the
  evaluations at concrete inputs use, with the report above and the items in the order
  in which they were stored.
\<close>

definition read_fields_with ::
  "(FieldTypeProbe \<Rightarrow> string option) \<Rightarrow> (atom dict \<Rightarrow> atom dict) \<Rightarrow> bool \<Rightarrow> atom dict list \<Rightarrow> int
   \<Rightarrow> bool \<Rightarrow> error + Field list \<times> atom dict list"
where
  "read_fields_with report items expand records limit collapse =
     (case scan items expand limit collapse 0 records ([], []) of
        (st, remaining) \<Rightarrow>
          (case resolve_keys report (fst st) (snd st) of
             Inl e \<Rightarrow> Inl e
           | Inr fs \<Rightarrow> Inr (fs, remaining)))"

definition read_fields ::
  "bool \<Rightarrow> atom dict list \<Rightarrow> int \<Rightarrow> bool \<Rightarrow> error + Field list \<times> atom dict list"
where
  "read_fields expand records limit collapse =
     read_fields_with unique_storage_type (\<lambda>d. d) expand records limit collapse"

section \<open>What the driver scans\<close>

text \<open>
  The claims about \<^verbatim>\<open>read_fields\<close> speak of the keys and values met while scanning. The
  leaf items of a record are the pairs of full key and value that \<^verbatim>\<open>probe_record\<close> hands to
  a probe, in the order of its traversal; the trace of a list of records is the leaf items
  of each, in stream order, each record collapsed first when \<open>collapse\<close> is set and its
  items then taken in the order \<open>items\<close>.
\<close>

fun leaf_items :: "bool \<Rightarrow> atom dict \<Rightarrow> string option \<Rightarrow> (string \<times> atom pyval) list" where
  "leaf_items expand [] parent = []"
| "leaf_items expand ((key, Leaf a) # rest) parent =
     (full_key parent key, Leaf a) # leaf_items expand rest parent"
| "leaf_items expand ((key, Dict d) # rest) parent =
     (if expand
      then leaf_items expand d (Some (full_key parent key)) @ leaf_items expand rest parent
      else (full_key parent key, Dict d) # leaf_items expand rest parent)"

definition trace ::
  "(atom dict \<Rightarrow> atom dict) \<Rightarrow> bool \<Rightarrow> bool \<Rightarrow> atom dict list \<Rightarrow> (string \<times> atom pyval) list"
where
  "trace items expand collapse records =
     concat (map (\<lambda>r. leaf_items expand
                          (if collapse then items (collapse_record r ''.'' None) else r) None)
               records)"

text \<open>
  The records the loop takes from a stream when its counter stands at \<open>count\<close>: all of
  them when the limit is 0; otherwise those up to and including the first record at which
  \<^verbatim>\<open>count >= limit\<close> holds, if the stream has that many. From the start of the loop these
  are \<open>limit + 1\<close> records for a positive limit and one record for a negative limit.
\<close>

definition taken :: "int \<Rightarrow> int \<Rightarrow> 'a list \<Rightarrow> 'a list" where
  "taken limit count records =
     (if limit = 0 then records
      else if count \<ge> limit then take 1 records
      else take (nat (limit - count) + 1) records)"

definition scanned :: "int \<Rightarrow> 'a list \<Rightarrow> 'a list" where
  "scanned limit records = taken limit 0 records"

text \<open>The elements of a list in the order of their first occurrence, each once.\<close>

primrec first_seen :: "'a list \<Rightarrow> 'a list" where
  "first_seen [] = []"
| "first_seen (x # xs) = x # removeAll x (first_seen xs)"

text \<open>
  The kinds of the values met under a key, and the statement that exactly one kind that
  is not null was met under it.
\<close>

definition kinds_seen :: "string \<Rightarrow> (string \<times> atom pyval) list \<Rightarrow> kind list" where
  "kinds_seen k tr = map (classify \<circ> snd) (filter (\<lambda>item. fst item = k) tr)"

definition one_kind_seen :: "string \<Rightarrow> (string \<times> atom pyval) list \<Rightarrow> kind \<Rightarrow> bool" where
  "one_kind_seen k tr kd = (set (filter (\<lambda>x. x \<noteq> KNull) (kinds_seen k tr)) = {kd})"

text \<open>
  One step of \<^verbatim>\<open>probe_record\<close> on a leaf item, and the state that the driver is in after
  the items of a trace: the keys in the order they were first met, and for each key a
  probe that bears its name and holds the kinds met under it.
\<close>

definition pv :: "string \<times> atom pyval \<Rightarrow> probes \<Rightarrow> probes" where
  "pv item st = probe_value (fst item) (snd item) st"

definition tracks :: "(string \<times> atom pyval) list \<Rightarrow> probes \<Rightarrow> bool" where
  "tracks tr st \<longleftrightarrow>
     fst st = first_seen (map fst tr) \<and>
     (\<forall>k. case map_of (snd st) k of
            None \<Rightarrow> k \<notin> fst ` set tr
          | Some p \<Rightarrow> k \<in> fst ` set tr \<and> field p = k \<and> distinct (kinds p) \<and>
                      set (kinds p) = set (kinds_seen k tr))"

section \<open>Key paths, collisions and the leaves of a nested record\<close>

text \<open>
  The path of a key, and the conditions the claims about the record path transform put on
  the keys of a record: no segment of a key's path is empty (which needs the key to split
  at all), no key's path is a proper prefix of another key's path, and, for the order of
  the visit, some key is visited after a key whose path is a proper prefix of its own.
\<close>

definition key_path :: "string \<Rightarrow> string \<Rightarrow> string list" where
  "key_path sep key = split_from sep [] key"

definition segments_ok :: "string \<Rightarrow> string \<Rightarrow> bool" where
  "segments_ok sep key = (case py_split key sep of Inl e \<Rightarrow> False | Inr path \<Rightarrow> [] \<notin> set path)"

definition collision_free :: "string \<Rightarrow> 'a dict \<Rightarrow> bool" where
  "collision_free sep r =
     list_all (\<lambda>k. list_all (\<lambda>k'. \<not> strict_prefix (key_path sep k) (key_path sep k')) (map fst r))
       (map fst r)"

fun prefix_visited_first :: "string \<Rightarrow> 'a dict \<Rightarrow> bool" where
  "prefix_visited_first sep [] = False"
| "prefix_visited_first sep (item # rest) =
     (list_ex (\<lambda>k'. strict_prefix (key_path sep (fst item)) (key_path sep k')) (map fst rest) \<or>
      prefix_visited_first sep rest)"

text \<open>
  The leaves of a nested record: the paths that end in a value that is no dictionary, in
  the order \<^verbatim>\<open>collapse_record\<close> meets them, and the key \<^verbatim>\<open>collapse_record\<close> computes for a
  path below a root. \<open>lookup_leaf\<close> reads the leaf at a path, as item access does.
\<close>

fun leaf_paths :: "'a dict \<Rightarrow> (string list \<times> 'a) list" where
  "leaf_paths [] = []"
| "leaf_paths ((k, Leaf a) # rest) = ([k], a) # leaf_paths rest"
| "leaf_paths ((k, Dict d) # rest) = map (\<lambda>(p, a). (k # p, a)) (leaf_paths d) @ leaf_paths rest"

fun path_key :: "string \<Rightarrow> string option \<Rightarrow> string list \<Rightarrow> string" where
  "path_key sep root [] = (case root of None \<Rightarrow> [] | Some r \<Rightarrow> r)"
| "path_key sep root (k # ks) = path_key sep (Some (collapsed_key root sep k)) ks"

fun lookup_leaf :: "'a dict \<Rightarrow> string list \<Rightarrow> 'a option" where
  "lookup_leaf d [] = None"
| "lookup_leaf d [k] = (case map_of d k of Some (Leaf a) \<Rightarrow> Some a | _ \<Rightarrow> None)"
| "lookup_leaf d (k # ks) = (case map_of d k of Some (Dict s) \<Rightarrow> lookup_leaf s ks | _ \<Rightarrow> None)"

text \<open>A Python dictionary has each key once, at every level.\<close>

fun wf_val :: "'a pyval \<Rightarrow> bool" where
  "wf_val (Leaf a) = True"
| "wf_val (Dict d) = (distinct (map fst d) \<and> (\<forall>x \<in> set d. wf_val (snd x)))"

text \<open>
  The items \<^verbatim>\<open>collapse_record\<close> stores for a nested record below a root, in the order it
  stores them, and the statement that \<^verbatim>\<open>expand_record\<close> cannot walk a path because a
  proper prefix of it holds a leaf.
\<close>

definition flat_of :: "string \<Rightarrow> string option \<Rightarrow> 'a dict \<Rightarrow> 'a dict" where
  "flat_of sep root d = map (\<lambda>(p, a). (path_key sep root p, Leaf a)) (leaf_paths d)"

definition blocked :: "'a dict \<Rightarrow> string list \<Rightarrow> bool" where
  "blocked d p \<longleftrightarrow> (\<exists>q. strict_prefix q p \<and> lookup_leaf d q \<noteq> None)"

section \<open>Facts about dictionaries\<close>

lemma update_fresh: "k \<notin> fst ` set al \<Longrightarrow> AList.update k v al = al @ [(k, v)]"
  by (induction al) auto

lemma distinct_dict_update:
  "distinct (map fst result) \<Longrightarrow> distinct (map fst (dict_update result other))"
  unfolding dict_update_def
  by (induction other arbitrary: result) (auto simp: distinct_update)

lemma leaves_update:
  "list_all is_leaf (map snd al) \<Longrightarrow> is_leaf v \<Longrightarrow> list_all is_leaf (map snd (AList.update k v al))"
  by (induction al) auto

lemma leaves_dict_update:
  "list_all is_leaf (map snd result) \<Longrightarrow> list_all is_leaf (map snd other) \<Longrightarrow>
   list_all is_leaf (map snd (dict_update result other))"
  unfolding dict_update_def
  by (induction other arbitrary: result) (auto simp: leaves_update)

section \<open>The output of \<^verbatim>\<open>collapse_record\<close> is flat\<close>

lemma collapse_items_distinct:
  "distinct (map fst result) \<Longrightarrow> distinct (map fst (collapse_items d sep root result))"
  by (induction d sep root result rule: collapse_items.induct)
     (auto simp: distinct_update distinct_dict_update)

lemma collapse_items_leaves:
  "list_all is_leaf (map snd result) \<Longrightarrow>
   list_all is_leaf (map snd (collapse_items d sep root result))"
  by (induction d sep root result rule: collapse_items.induct)
     (auto simp: leaves_update leaves_dict_update)

lemma collapse_items_flat_id:
  "list_all is_leaf (map snd xs) \<Longrightarrow> distinct (map fst (result @ xs)) \<Longrightarrow>
   collapse_items xs sep None result = result @ xs"
proof (induction xs arbitrary: result)
  case Nil
  then show ?case by simp
next
  case (Cons x xs)
  obtain k v where x: "x = (k, v)" by (cases x)
  from Cons.prems x obtain a where v: "v = Leaf a" by (cases v) auto
  from Cons.prems x have fresh: "k \<notin> fst ` set result" by auto
  have "collapse_items (x # xs) sep None result
        = collapse_items xs sep None (result @ [(k, Leaf a)])"
    using fresh by (simp add: x v collapsed_key_def update_fresh)
  also have "\<dots> = (result @ [(k, Leaf a)]) @ xs"
    using Cons.prems by (intro Cons.IH) (auto simp: x v)
  finally show ?case by (simp add: x v)
qed

text \<open>
  C10. \<^verbatim>\<open>collapse_record\<close> is idempotent: for every record, nested or not, and every
  separator, collapsing the collapsed record gives the collapsed record again, since
  none of its values is a dictionary.
\<close>

theorem collapse_record_idempotent:
  "collapse_record (collapse_record r sep None) sep None = collapse_record r sep None \<and>
   flat (collapse_record r sep None)"
proof -
  have leaves: "list_all is_leaf (map snd (collapse_items r sep None []))"
    by (rule collapse_items_leaves) simp
  moreover have "distinct (map fst ([] @ collapse_items r sep None []))"
    using collapse_items_distinct [of "[]" r sep None] by simp
  ultimately have "collapse_items (collapse_items r sep None []) sep None []
                   = [] @ collapse_items r sep None []"
    by (rule collapse_items_flat_id)
  with leaves show ?thesis
    by (simp add: collapse_record_def flat_def)
qed

section \<open>The field list builder: order, count and analytical type\<close>

lemma map_of_copy_key:
  "map_of (copy_key k obj d) k' = (if k' = k \<and> map_of obj k \<noteq> None then map_of obj k else map_of d k')"
  by (auto simp: copy_key_def update_conv' split: option.splits)

lemma keys_copy_key:
  "fst ` set (copy_key k obj d) \<subseteq> insert k (fst ` set d)"
  by (auto simp: copy_key_def dom_update split: option.splits)

lemma Field_kwargs_attrs:
  assumes "Field_kwargs d = Inr f"
  shows "map_of d ''name'' = Some (name f)"
    and "analytical_type f = kwarg d ''analytical_type'' ANone"
  using assms by (auto simp: Field_kwargs_def Field_init_def split: if_splits option.splits)

lemma describe_name:
  "describe obj = Inr d \<Longrightarrow> map_of d ''name'' = descr_name obj"
  by (cases obj)
     (auto simp: describe_def Let_def map_of_copy_key update_conv' split: list.splits option.splits if_splits)

lemma describe_analytical:
  "describe obj = Inr d \<Longrightarrow> \<not> gives_analytical_type obj \<Longrightarrow>
   map_of d ''analytical_type'' = Some (AStr ''typeless'')"
  by (cases obj)
     (auto simp: describe_def Let_def map_of_copy_key update_conv' split: list.splits option.splits if_splits)

lemma field_of_descr_name:
  "field_of_descr obj = Inr f \<Longrightarrow> descr_name obj = Some (name f)"
  by (auto simp: field_of_descr_def describe_name dest: Field_kwargs_attrs(1) split: sum.splits if_splits)

lemma field_of_descr_typeless:
  "field_of_descr obj = Inr f \<Longrightarrow> \<not> gives_analytical_type obj \<Longrightarrow>
   analytical_type f = AStr ''typeless''"
  by (auto simp: field_of_descr_def kwarg_def dest!: Field_kwargs_attrs(2) describe_analytical split: sum.splits if_splits)

lemma fieldlist_pointwise:
  "fieldlist ds = Inr fs \<Longrightarrow> list_all2 (\<lambda>d f. field_of_descr d = Inr f) ds fs"
  by (induction ds arbitrary: fs) (auto split: sum.splits)

lemma fieldlist_total:
  "list_all accepted ds \<Longrightarrow> \<exists>fs. fieldlist ds = Inr fs"
  by (induction ds) (auto simp: accepted_def split: sum.splits)

text \<open>
  C9. For every sequence of descriptions that \<^verbatim>\<open>fieldlist\<close> accepts, \<^verbatim>\<open>fieldlist\<close> returns a
  list with one field for each description, the field at a position being the one built
  from the description at that position and bearing its name; nothing is removed, a
  repeated name neither.
\<close>

theorem fieldlist_keeps_order_and_count:
  assumes "list_all accepted ds"
  shows "\<exists>fs. fieldlist ds = Inr fs \<and> length fs = length ds \<and>
              (\<forall>i<length ds. field_of_descr (ds ! i) = Inr (fs ! i) \<and>
                              descr_name (ds ! i) = Some (name (fs ! i)))"
proof -
  from fieldlist_total [OF assms] obtain fs where fs: "fieldlist ds = Inr fs" ..
  from fieldlist_pointwise [OF fs]
  have all2: "list_all2 (\<lambda>d f. field_of_descr d = Inr f) ds fs" .
  then have len: "length fs = length ds" by (simp add: list_all2_lengthD)
  have "field_of_descr (ds ! i) = Inr (fs ! i) \<and> descr_name (ds ! i) = Some (name (fs ! i))"
    if "i < length ds" for i
    using list_all2_nthD [OF all2 that] by (simp add: field_of_descr_name)
  with fs len show ?thesis by blast
qed

theorem fieldlist_keeps_order_and_count_witness:
  "\<exists>fs. fieldlist [DStr ''a'', DTuple [AStr ''a'', AStr ''integer''],
                     DDict [(''name'', AStr ''b''), (''label'', AStr ''B'')]] = Inr fs \<and>
        length fs = 3 \<and> map name fs = [AStr ''a'', AStr ''a'', AStr ''b'']"
proof -
  let ?ds = "[DStr ''a'', DTuple [AStr ''a'', AStr ''integer''],
              DDict [(''name'', AStr ''b''), (''label'', AStr ''B'')]]"
  have acc: "list_all accepted ?ds"
    by (simp add: accepted_def field_of_descr_def describe_def Field_kwargs_def
          Field_parameters_def copy_key_def)
  from fieldlist_keeps_order_and_count [OF acc] obtain fs where
    fs: "fieldlist ?ds = Inr fs" "length fs = length ?ds"
    and nth: "\<forall>i<length ?ds. field_of_descr (?ds ! i) = Inr (fs ! i) \<and>
                  descr_name (?ds ! i) = Some (name (fs ! i))"
    by blast
  from fs(2) obtain f0 f1 f2 where fs3: "fs = [f0, f1, f2]"
    by (cases fs; cases "tl fs"; cases "tl (tl fs)") auto
  have "descr_name (?ds ! 0) = Some (name (fs ! 0))"
    "descr_name (?ds ! 1) = Some (name (fs ! 1))"
    "descr_name (?ds ! 2) = Some (name (fs ! 2))"
    using nth [rule_format, of 0] nth [rule_format, of 1] nth [rule_format, of 2]
    by simp_all
  then have "map name fs = [AStr ''a'', AStr ''a'', AStr ''b'']"
    by (simp add: fs3)
  with fs show ?thesis by simp
qed

text \<open>
  C3, as amended. For every description accepted by \<^verbatim>\<open>fieldlist\<close> that gives no
  analytical type itself, the analytical type of the resulting field is \<^verbatim>\<open>"typeless"\<close>,
  whatever its storage type is: the default table is not consulted.
\<close>

theorem fieldlist_analytical_typeless:
  assumes "fieldlist ds = Inr fs" and "i < length ds" and "\<not> gives_analytical_type (ds ! i)"
  shows "analytical_type (fs ! i) = AStr ''typeless''"
proof -
  from fieldlist_pointwise [OF assms(1)]
  have "field_of_descr (ds ! i) = Inr (fs ! i)"
    using assms(2) by (rule list_all2_nthD)
  then show ?thesis using assms(3) by (rule field_of_descr_typeless)
qed

lemma fieldlist_integer_tuple:
  "fieldlist [DTuple [AStr ''x'', AStr ''integer'']] =
     Inr [\<lparr>name = AStr ''x'', label = ANone, storage_type = AStr ''integer'',
           analytical_type = AStr ''typeless'', concrete_storage_type = ANone,
           missing_values = ANone\<rparr>]"
  by (simp add: field_of_descr_def describe_def Field_kwargs_def Field_parameters_def
        Field_init_def kwarg_def)

theorem fieldlist_analytical_typeless_witness:
  "fieldlist [DTuple [AStr ''x'', AStr ''integer'']] =
     Inr [\<lparr>name = AStr ''x'', label = ANone, storage_type = AStr ''integer'',
           analytical_type = AStr ''typeless'', concrete_storage_type = ANone,
           missing_values = ANone\<rparr>] \<and>
   (0::nat) < length [DTuple [AStr ''x'', AStr ''integer'']] \<and>
   \<not> gives_analytical_type ([DTuple [AStr ''x'', AStr ''integer'']] ! 0) \<and>
   analytical_type ([\<lparr>name = AStr ''x'', label = ANone, storage_type = AStr ''integer'',
           analytical_type = AStr ''typeless'', concrete_storage_type = ANone,
           missing_values = ANone\<rparr>] ! 0) = AStr ''typeless''"
  using fieldlist_analytical_typeless [OF fieldlist_integer_tuple, of 0] fieldlist_integer_tuple
  by simp

text \<open>
  C3 as stated fails: the tuple \<^verbatim>\<open>('x', 'integer')\<close> gives no analytical type, and its field
  has the analytical type \<^verbatim>\<open>"typeless"\<close>, not the \<^verbatim>\<open>"discrete"\<close> of the default table.
\<close>

theorem fieldlist_default_table_counterexample:
  "fieldlist [DTuple [AStr ''x'', AStr ''integer'']] =
     Inr [\<lparr>name = AStr ''x'', label = ANone, storage_type = AStr ''integer'',
           analytical_type = AStr ''typeless'', concrete_storage_type = ANone,
           missing_values = ANone\<rparr>] \<and>
   \<not> gives_analytical_type (DTuple [AStr ''x'', AStr ''integer'']) \<and>
   \<not> analytical_from_table \<lparr>name = AStr ''x'', label = ANone, storage_type = AStr ''integer'',
           analytical_type = AStr ''typeless'', concrete_storage_type = ANone,
           missing_values = ANone\<rparr>"
  by (simp add: field_of_descr_def describe_def Field_kwargs_def Field_parameters_def
        Field_init_def kwarg_def analytical_from_table_def default_analytical_type_def)

section \<open>The SQL adapter: unmatched column types and long rows\<close>

lemma convert_no_match:
  "list_all (\<lambda>conv. \<not> issubclass cls (fst conv)) types \<Longrightarrow>
   convert issubclass types cls fld = fld"
  by (induction types) auto

lemma column_field_no_match:
  assumes "list_all (\<lambda>conv. \<not> issubclass cls (fst conv)) types"
  shows "storage_type (column_field issubclass types (n, cls)) = AStr ''unknown''"
    and "analytical_type (column_field issubclass types (n, cls)) = AStr ''unknown''"
  using assms
  by (simp_all add: column_field_def convert_no_match Field_named_def Field_init_def)

text \<open>
  C5. The code at a column type that no entry of the table matches: the field of the
  column \<^verbatim>\<open>payload\<close> of type \<^verbatim>\<open>NullType\<close> gets the storage type \<^verbatim>\<open>"unknown"\<close> and the
  analytical type \<^verbatim>\<open>"unknown"\<close>, where the claim has \<^verbatim>\<open>"typeless"\<close>. No error is raised.
\<close>

theorem SQLDataset_fields_unmatched_type:
  "fst (SQLDataset_fields sql_issubclass sql_to_brewery_types
          \<lparr>columns = [(AStr ''payload'', ''NullType'')], stored_fields = None\<rparr>) =
     [\<lparr>name = AStr ''payload'', label = ANone, storage_type = AStr ''unknown'',
       analytical_type = AStr ''unknown'', concrete_storage_type = AObj ''NullType'',
       missing_values = ANone\<rparr>]"
  by (simp add: SQLDataset_fields_def column_field_def sql_to_brewery_types_def
        sql_issubclass_def sql_classes_def Field_named_def Field_init_def Let_def)

lemma append_row_accepted:
  assumes "dataset_field_names t = Some names"
  shows "\<exists>t'. append t (ARow row) = Inr t'"
  using assms
  by (auto simp: append_def field_names_def execute_def Let_def split: option.splits sum.splits)

text \<open>
  C6. The code at a row with more values than the stream has fields: the stream with the
  fields \<^verbatim>\<open>a\<close> and \<^verbatim>\<open>b\<close> accepts the row \<^verbatim>\<open>(1, 2, 3)\<close>, hands the record
  \<^verbatim>\<open>{a: 1, b: 2}\<close> to the insert command and drops the third value, where the claim has a
  schema-mismatch error.
\<close>

theorem append_long_row_accepted:
  "append \<lparr>stored_field_names = Some [AStr ''a'', AStr ''b''], target_fields = None,
            dataset_field_names = Some [AStr ''a'', AStr ''b''], executed = []\<rparr>
          (ARow [AInt 1, AInt 2, AInt 3]) =
     Inr \<lparr>stored_field_names = Some [AStr ''a'', AStr ''b''], target_fields = None,
          dataset_field_names = Some [AStr ''a'', AStr ''b''],
          executed = [[(AStr ''a'', AInt 1), (AStr ''b'', AInt 2)]]\<rparr>"
  by (simp add: append_def field_names_def execute_def py_dict_def dict_update_def)

section \<open>The schema inference driver: discovery order, resolution and the sample limit\<close>

lemma probe_record_fold:
  "probe_record expand d parent st = fold pv (leaf_items expand d parent) st"
  by (induction expand d parent st rule: probe_record.induct) (auto simp: pv_def)

lemma taken_Nil [simp]: "taken limit count [] = []"
  by (simp add: taken_def)

lemma taken_stop:
  "limit \<noteq> 0 \<Longrightarrow> count \<ge> limit \<Longrightarrow> taken limit count (r # rs) = [r]"
  by (simp add: taken_def)

lemma taken_go:
  assumes "\<not> (limit \<noteq> 0 \<and> count \<ge> limit)"
  shows "taken limit count (r # rs) = r # taken limit (count + 1) rs"
proof (cases "limit = 0")
  case True
  then show ?thesis by (simp add: taken_def)
next
  case False
  with assms have lt: "count < limit" by simp
  show ?thesis
  proof (cases "count + 1 = limit")
    case True
    then have "nat (limit - count) = 1" by simp
    with True False lt show ?thesis by (simp add: taken_def)
  next
    case ne: False
    with lt have "nat (limit - count) = Suc (nat (limit - (count + 1)))" by simp
    with ne False lt show ?thesis by (simp add: taken_def)
  qed
qed

lemma trace_Cons:
  "trace items expand collapse (r # rs) =
     leaf_items expand (if collapse then items (collapse_record r ''.'' None) else r) None
     @ trace items expand collapse rs"
  by (simp add: trace_def)

lemma scan_taken:
  "scan items expand limit collapse count records st =
     (fold pv (trace items expand collapse (taken limit count records)) st,
      drop (length (taken limit count records)) records)"
proof (induction records arbitrary: count st)
  case Nil
  show ?case by (simp add: trace_def)
next
  case (Cons r rs)
  let ?r = "if collapse then items (collapse_record r ''.'' None) else r"
  let ?st = "probe_record expand ?r None st"
  show ?case
  proof (cases "limit \<noteq> 0 \<and> count \<ge> limit")
    case True
    then have eq: "scan items expand limit collapse count (r # rs) st = (?st, rs)"
      by (simp add: Let_def)
    from True have tk: "taken limit count (r # rs) = [r]"
      by (simp add: taken_stop)
    show ?thesis
      unfolding eq tk by (simp add: trace_def probe_record_fold)
  next
    case False
    then have eq: "scan items expand limit collapse count (r # rs) st
                   = scan items expand limit collapse (count + 1) rs ?st"
      by (auto simp: Let_def)
    have tk: "taken limit count (r # rs) = r # taken limit (count + 1) rs"
      using False by (rule taken_go)
    show ?thesis
      unfolding eq tk Cons.IH [of "count + 1" ?st] trace_Cons
      by (simp add: probe_record_fold)
  qed
qed

lemma scanned_all: "scanned 0 records = records"
  by (simp add: scanned_def taken_def)

lemma scanned_positive: "0 < limit \<Longrightarrow> scanned limit records = take (nat limit + 1) records"
  by (simp add: scanned_def taken_def)

lemma scanned_negative: "limit < 0 \<Longrightarrow> scanned limit records = take 1 records"
  by (simp add: scanned_def taken_def)

lemma first_seen_set [simp]: "set (first_seen xs) = set xs"
  by (induction xs) auto

lemma first_seen_distinct [simp]: "distinct (first_seen xs)"
  by (induction xs) (auto simp: distinct_removeAll)

lemma first_seen_snoc:
  "first_seen (xs @ [x]) = (if x \<in> set xs then first_seen xs else first_seen xs @ [x])"
  by (induction xs) (auto simp: removeAll_append)

lemma tracks_Nil: "tracks [] ([], [])"
  by (simp add: tracks_def)

lemma tracks_step:
  assumes "tracks tr st"
  shows "tracks (tr @ [item]) (pv item st)"
proof -
  obtain k v where item: "item = (k, v)" by (cases item)
  from assms have keys: "fst st = first_seen (map fst tr)"
    and pr: "\<And>k'. case map_of (snd st) k' of
            None \<Rightarrow> k' \<notin> fst ` set tr
          | Some p \<Rightarrow> k' \<in> fst ` set tr \<and> field p = k' \<and> distinct (kinds p) \<and>
                      set (kinds p) = set (kinds_seen k' tr)"
    by (auto simp: tracks_def)
  show ?thesis
  proof (cases "map_of (snd st) k")
    case None
    with pr [of k] have fresh: "k \<notin> fst ` set tr" by simp
    have st': "pv item st = (fst st @ [k], AList.update k (probe (FieldTypeProbe_init k) v) (snd st))"
      by (simp add: pv_def probe_value_def item None)
    show ?thesis
      unfolding tracks_def st'
    proof (intro conjI allI)
      show "fst (fst st @ [k], AList.update k (probe (FieldTypeProbe_init k) v) (snd st))
            = first_seen (map fst (tr @ [item]))"
        using fresh keys by (simp add: first_seen_snoc item)
    next
      fix k'
      show "case map_of (snd (fst st @ [k], AList.update k (probe (FieldTypeProbe_init k) v) (snd st))) k' of
              None \<Rightarrow> k' \<notin> fst ` set (tr @ [item])
            | Some p \<Rightarrow> k' \<in> fst ` set (tr @ [item]) \<and> field p = k' \<and> distinct (kinds p) \<and>
                      set (kinds p) = set (kinds_seen k' (tr @ [item]))"
      proof (cases "k' = k")
        case True
        have "kinds_seen k tr = []"
          using fresh by (auto simp: kinds_seen_def filter_empty_conv)
        then show ?thesis
          using True
          by (simp add: update_conv' item probe_def FieldTypeProbe_init_def kinds_seen_def)
      next
        case False
        then show ?thesis
          using pr [of k']
          by (auto simp: update_conv' item kinds_seen_def split: option.splits)
      qed
    qed
  next
    case (Some p)
    with pr [of k] have known: "k \<in> fst ` set tr" "field p = k" "distinct (kinds p)"
      "set (kinds p) = set (kinds_seen k tr)" by simp_all
    have st': "pv item st = (fst st, AList.update k (probe p v) (snd st))"
      by (simp add: pv_def probe_value_def item Some)
    show ?thesis
      unfolding tracks_def st'
    proof (intro conjI allI)
      show "fst (fst st, AList.update k (probe p v) (snd st)) = first_seen (map fst (tr @ [item]))"
        using known(1) keys by (simp add: first_seen_snoc item)
    next
      fix k'
      show "case map_of (snd (fst st, AList.update k (probe p v) (snd st))) k' of
              None \<Rightarrow> k' \<notin> fst ` set (tr @ [item])
            | Some p \<Rightarrow> k' \<in> fst ` set (tr @ [item]) \<and> field p = k' \<and> distinct (kinds p) \<and>
                      set (kinds p) = set (kinds_seen k' (tr @ [item]))"
      proof (cases "k' = k")
        case True
        then show ?thesis
          using known
          by (auto simp: update_conv' item probe_def kinds_seen_def)
      next
        case False
        then show ?thesis
          using pr [of k']
          by (auto simp: update_conv' item kinds_seen_def split: option.splits)
      qed
    qed
  qed
qed

lemma tracks_fold:
  "tracks tr0 st \<Longrightarrow> tracks (tr0 @ tr) (fold pv tr st)"
proof (induction tr arbitrary: tr0 st)
  case Nil
  then show ?case by simp
next
  case (Cons item tr)
  from tracks_step [OF Cons.prems] have "tracks (tr0 @ [item]) (pv item st)" .
  from Cons.IH [OF this] show ?case by simp
qed

lemma resolve_keys_map:
  "set ks \<subseteq> dom (map_of probes) \<Longrightarrow>
   resolve_keys report ks probes = Inr (map (\<lambda>k. resolve report (the (map_of probes k))) ks)"
  by (induction ks) (auto split: option.splits)

lemma resolve_name: "name (resolve report p) = AStr (field p)"
  by (simp add: resolve_def resolve_field_def Field_named_def Field_init_def Let_def split: option.splits)

lemma resolve_field_storage_type:
  "storage_type (resolve_field n reported) =
     (if reported = Some ''unicode'' then AStr ''string'' else AStr ''unknown'')"
  by (cases reported) (simp_all add: resolve_field_def Field_named_def Field_init_def Let_def)

lemma resolve_field_concrete_storage_type:
  "concrete_storage_type (resolve_field n reported) =
     (case reported of
        None \<Rightarrow> ANone
      | Some st \<Rightarrow> if st = [] \<or> st = ''unicode'' then ANone else AStr st)"
  by (cases reported) (simp_all add: resolve_field_def Field_named_def Field_init_def Let_def)

lemma distinct_singleton: "distinct xs \<Longrightarrow> set xs = {x} \<Longrightarrow> xs = [x]"
  by (cases xs) (auto simp: subset_singleton_iff)

lemma unique_kind_seen:
  assumes "distinct ks" and "set (filter (\<lambda>x. x \<noteq> KNull) ks) = {kd}"
  shows "unique_kind ks = Some kd"
proof -
  have "filter (\<lambda>x. x \<noteq> KNull) ks = [kd]"
    using assms by (intro distinct_singleton) auto
  then show ?thesis by (simp add: unique_kind_def)
qed

lemma scan_tracks:
  "tracks (trace items expand collapse (scanned limit records))
     (fst (scan items expand limit collapse 0 records ([], [])))"
proof -
  have "tracks ([] @ trace items expand collapse (scanned limit records))
          (fold pv (trace items expand collapse (scanned limit records)) ([], []))"
    by (rule tracks_fold [OF tracks_Nil])
  then show ?thesis by (simp add: scan_taken scanned_def)
qed

lemma tracks_probe:
  assumes "tracks tr st" and "k \<in> set (fst st)"
  obtains p where "map_of (snd st) k = Some p" "field p = k" "distinct (kinds p)"
    "set (kinds p) = set (kinds_seen k tr)"
proof -
  from assms have "k \<in> fst ` set tr" by (simp add: tracks_def)
  moreover from assms(1) have "case map_of (snd st) k of
            None \<Rightarrow> k \<notin> fst ` set tr
          | Some p \<Rightarrow> k \<in> fst ` set tr \<and> field p = k \<and> distinct (kinds p) \<and>
                      set (kinds p) = set (kinds_seen k tr)"
    by (simp add: tracks_def)
  ultimately show ?thesis using that by (cases "map_of (snd st) k") auto
qed

lemma tracks_resolve_keys:
  assumes "tracks tr st"
  shows "resolve_keys report (fst st) (snd st)
         = Inr (map (\<lambda>k. resolve report (the (map_of (snd st) k))) (fst st))"
proof (rule resolve_keys_map)
  show "set (fst st) \<subseteq> dom (map_of (snd st))"
  proof
    fix k assume "k \<in> set (fst st)"
    from tracks_probe [OF assms this] show "k \<in> dom (map_of (snd st))" by blast
  qed
qed

lemma read_fields_with_fields:
  "read_fields_with report items expand records limit collapse =
     Inr (map (\<lambda>k. resolve report
                      (the (map_of (snd (fst (scan items expand limit collapse 0 records ([], [])))) k)))
            (fst (fst (scan items expand limit collapse 0 records ([], [])))),
          drop (length (scanned limit records)) records)"
proof -
  let ?sc = "scan items expand limit collapse 0 records ([], [])"
  have rem: "snd ?sc = drop (length (scanned limit records)) records"
    by (simp add: scan_taken scanned_def)
  have "resolve_keys report (fst (fst ?sc)) (snd (fst ?sc))
        = Inr (map (\<lambda>k. resolve report (the (map_of (snd (fst ?sc)) k))) (fst (fst ?sc)))"
    by (rule tracks_resolve_keys [OF scan_tracks])
  moreover obtain ks ps rest where sc: "?sc = ((ks, ps), rest)"
    by (metis prod.collapse)
  ultimately show ?thesis
    using rem by (simp add: read_fields_with_def)
qed

text \<open>
  C8. For every record stream, whatever the limit, the flags, the reports of the probes
  and the order in which a collapsed record yields its items, \<^verbatim>\<open>read_fields\<close> returns a
  field list whose names are the keys met while scanning, each once, in the order in
  which they were first met. The records scanned are all records of the stream at the
  limit 0, and the first records of the stream otherwise, as many as the loop takes; the
  records after them are left in the stream.
\<close>

theorem read_fields_discovery_order:
  "\<exists>fs.
     read_fields_with report items expand records limit collapse
       = Inr (fs, drop (length (scanned limit records)) records) \<and>
     map name fs
       = map AStr (first_seen (map fst (trace items expand collapse (scanned limit records)))) \<and>
     distinct (map name fs)"
proof -
  let ?st = "fst (scan items expand limit collapse 0 records ([], []))"
  let ?tr = "trace items expand collapse (scanned limit records)"
  let ?fs = "map (\<lambda>k. resolve report (the (map_of (snd ?st) k))) (fst ?st)"
  have tr: "tracks ?tr ?st" by (rule scan_tracks)
  have rf: "read_fields_with report items expand records limit collapse
            = Inr (?fs, drop (length (scanned limit records)) records)"
    by (rule read_fields_with_fields)
  have "name (resolve report (the (map_of (snd ?st) k))) = AStr k" if "k \<in> set (fst ?st)" for k
    using tracks_probe [OF tr that] by (metis option.sel resolve_name)
  then have "map name ?fs = map AStr (fst ?st)" by simp
  moreover from tr have keys: "fst ?st = first_seen (map fst ?tr)"
    by (simp add: tracks_def)
  ultimately have names: "map name ?fs = map AStr (first_seen (map fst ?tr))"
    by simp
  have dist: "distinct (map name ?fs)"
    unfolding names by (simp add: distinct_map inj_on_def)
  show ?thesis
  proof (intro exI conjI)
    show "read_fields_with report items expand records limit collapse
          = Inr (?fs, drop (length (scanned limit records)) records)" by (rule rf)
    show "map name ?fs = map AStr (first_seen (map fst ?tr))" by (rule names)
    show "distinct (map name ?fs)" by (rule dist)
  qed
qed

text \<open>
  The record \<^verbatim>\<open>{"a": {"a": 1}, "b": 2}\<close> collapses to a dictionary with the keys \<^verbatim>\<open>a.a\<close> and
  \<^verbatim>\<open>b\<close>, stored in this order. Where that dictionary yields \<^verbatim>\<open>b\<close> before \<^verbatim>\<open>a.a\<close>, the field
  list has \<^verbatim>\<open>b\<close> before \<^verbatim>\<open>a.a\<close>.
\<close>

lemma read_fields_with_items_order:
  "map_sum id (map name \<circ> fst)
     (read_fields_with report rev False
        [[(''a'', Dict [(''a'', Leaf (AInt 1))]), (''b'', Leaf (AInt 2))]] 0 True)
   = Inr [AStr ''b'', AStr ''a.a'']"
  by (simp add: read_fields_with_def probe_value_def full_key_def resolve_name
        probe_def FieldTypeProbe_init_def collapse_record_def collapsed_key_def dict_update_def)

text \<open>
  C1, as amended. For every probed field under whose key exactly one kind that is not
  null was met in the records scanned, the probe that \<^verbatim>\<open>read_fields\<close> holds for the key
  has that kind as the one it has seen, and the field has the storage type \<^verbatim>\<open>"string"\<close>
  when the probe reports \<^verbatim>\<open>"unicode"\<close> and the storage type \<^verbatim>\<open>"unknown"\<close> for every other
  report; a report that is neither empty nor \<^verbatim>\<open>"unicode"\<close> is kept as the concrete storage
  type. The storage type is never \<^verbatim>\<open>"integer"\<close>, \<^verbatim>\<open>"float"\<close> or \<^verbatim>\<open>"boolean"\<close>. This holds
  whatever the probes report.
\<close>

theorem read_fields_storage_type:
  assumes "read_fields_with report items expand records limit collapse = Inr (fs, remaining)"
    and "f \<in> set fs" and "name f = AStr k"
    and "one_kind_seen k (trace items expand collapse (scanned limit records)) kd"
  shows "\<exists>p. map_of (snd (fst (scan items expand limit collapse 0 records ([], [])))) k = Some p \<and>
             field p = k \<and>
             unique_kind (kinds p) = Some kd \<and>
             storage_type f
               = (if report p = Some ''unicode'' then AStr ''string'' else AStr ''unknown'') \<and>
             concrete_storage_type f
               = (case report p of
                    None \<Rightarrow> ANone
                  | Some st \<Rightarrow> if st = [] \<or> st = ''unicode'' then ANone else AStr st) \<and>
             storage_type f \<notin> {AStr ''integer'', AStr ''float'', AStr ''boolean''}"
proof -
  let ?st = "fst (scan items expand limit collapse 0 records ([], []))"
  let ?tr = "trace items expand collapse (scanned limit records)"
  let ?fs = "map (\<lambda>k. resolve report (the (map_of (snd ?st) k))) (fst ?st)"
  have tr: "tracks ?tr ?st" by (rule scan_tracks)
  have "read_fields_with report items expand records limit collapse
        = Inr (?fs, drop (length (scanned limit records)) records)"
    by (rule read_fields_with_fields)
  with assms(1) have fs: "fs = ?fs" by simp
  from assms(2) fs obtain k' where k': "k' \<in> set (fst ?st)"
    "f = resolve report (the (map_of (snd ?st) k'))" by auto
  from tracks_probe [OF tr k'(1)] obtain p where
    p: "map_of (snd ?st) k' = Some p" "field p = k'" "distinct (kinds p)"
       "set (kinds p) = set (kinds_seen k' ?tr)"
    by blast
  from k'(2) p(1) have f: "f = resolve report p" by simp
  with assms(3) p(2) have kk: "k' = k" by (simp add: resolve_name)
  from assms(4) have one: "set (filter (\<lambda>x. x \<noteq> KNull) (kinds p)) = {kd}"
    using p(4) kk by (simp add: one_kind_seen_def)
  from p(3) one have uk: "unique_kind (kinds p) = Some kd"
    by (rule unique_kind_seen)
  have st: "storage_type f
            = (if report p = Some ''unicode'' then AStr ''string'' else AStr ''unknown'')"
    unfolding f resolve_def by (rule resolve_field_storage_type)
  have cst: "concrete_storage_type f
             = (case report p of
                  None \<Rightarrow> ANone
                | Some st \<Rightarrow> if st = [] \<or> st = ''unicode'' then ANone else AStr st)"
    unfolding f resolve_def by (rule resolve_field_concrete_storage_type)
  have never: "storage_type f \<notin> {AStr ''integer'', AStr ''float'', AStr ''boolean''}"
    unfolding st by simp
  show ?thesis
  proof (intro exI [of _ p] conjI)
    show "map_of (snd ?st) k = Some p" using p(1) kk by simp
    show "field p = k" using p(2) kk by simp
    show "unique_kind (kinds p) = Some kd" by (rule uk)
    show "storage_type f
          = (if report p = Some ''unicode'' then AStr ''string'' else AStr ''unknown'')"
      by (rule st)
    show "concrete_storage_type f
          = (case report p of
               None \<Rightarrow> ANone
             | Some st \<Rightarrow> if st = [] \<or> st = ''unicode'' then ANone else AStr st)"
      by (rule cst)
    show "storage_type f \<notin> {AStr ''integer'', AStr ''float'', AStr ''boolean''}"
      by (rule never)
  qed
qed

lemma read_fields_with_one_integer:
  "read_fields_with report (\<lambda>d. d) False [[(''x'', Leaf (AInt 1))]] 0 False =
     Inr ([resolve report \<lparr>field = ''x'', kinds = [KInteger]\<rparr>], [])"
  by (simp add: read_fields_with_def probe_value_def full_key_def probe_def FieldTypeProbe_init_def)

lemma read_fields_one_integer:
  "read_fields False [[(''x'', Leaf (AInt 1))]] 0 False =
     Inr ([\<lparr>name = AStr ''x'', label = ANone, storage_type = AStr ''unknown'',
            analytical_type = ANone, concrete_storage_type = AStr ''int'',
            missing_values = ANone\<rparr>], [])"
  by (simp add: read_fields_def read_fields_with_one_integer
        resolve_def resolve_field_def unique_storage_type_def unique_kind_def Field_named_def Field_init_def)

lemma one_integer_seen:
  "one_kind_seen ''x'' (trace (\<lambda>d. d) False False (scanned 0 [[(''x'', Leaf (AInt 1))]])) KInteger"
  by (simp add: one_kind_seen_def kinds_seen_def trace_def full_key_def scanned_all)

theorem read_fields_storage_type_witness:
  "read_fields_with unique_storage_type (\<lambda>d. d) False [[(''x'', Leaf (AInt 1))]] 0 False =
     Inr ([\<lparr>name = AStr ''x'', label = ANone, storage_type = AStr ''unknown'',
            analytical_type = ANone, concrete_storage_type = AStr ''int'',
            missing_values = ANone\<rparr>], []) \<and>
   one_kind_seen ''x'' (trace (\<lambda>d. d) False False (scanned 0 [[(''x'', Leaf (AInt 1))]])) KInteger \<and>
   (\<exists>p. map_of (snd (fst (scan (\<lambda>d. d) False 0 False 0 [[(''x'', Leaf (AInt 1))]] ([], [])))) ''x''
          = Some p \<and>
        field p = ''x'' \<and>
        unique_kind (kinds p) = Some KInteger \<and>
        unique_storage_type p = Some ''int'' \<and>
        storage_type \<lparr>name = AStr ''x'', label = ANone, storage_type = AStr ''unknown'',
            analytical_type = ANone, concrete_storage_type = AStr ''int'',
            missing_values = ANone\<rparr> = AStr ''unknown'')"
  using read_fields_storage_type [OF read_fields_one_integer [unfolded read_fields_def] _ _ one_integer_seen,
          of "\<lparr>name = AStr ''x'', label = ANone, storage_type = AStr ''unknown'',
            analytical_type = ANone, concrete_storage_type = AStr ''int'',
            missing_values = ANone\<rparr>"]
    read_fields_one_integer [unfolded read_fields_def] one_integer_seen
  by (simp add: probe_value_def full_key_def probe_def FieldTypeProbe_init_def
        unique_storage_type_def unique_kind_def)

text \<open>
  C1 as stated fails: in the stream of the one record \<^verbatim>\<open>{"x": 1}\<close> the only kind met under
  \<^verbatim>\<open>x\<close> is integer, and the field \<^verbatim>\<open>x\<close> has the storage type \<^verbatim>\<open>"unknown"\<close>, not \<^verbatim>\<open>"integer"\<close>;
  whatever the probe of \<^verbatim>\<open>x\<close> reports, the storage type is not \<^verbatim>\<open>"integer"\<close>.
\<close>

theorem read_fields_integer_counterexample:
  "one_kind_seen ''x'' (trace (\<lambda>d. d) False False (scanned 0 [[(''x'', Leaf (AInt 1))]])) KInteger \<and>
   map_sum id (map storage_type \<circ> fst) (read_fields False [[(''x'', Leaf (AInt 1))]] 0 False)
     = Inr [AStr ''unknown''] \<and>
   map_sum id (map storage_type \<circ> fst) (read_fields False [[(''x'', Leaf (AInt 1))]] 0 False)
     \<noteq> Inr [AStr ''integer''] \<and>
   (\<forall>report.
      map_sum id (map storage_type \<circ> fst)
        (read_fields_with report (\<lambda>d. d) False [[(''x'', Leaf (AInt 1))]] 0 False)
      \<noteq> Inr [AStr ''integer''])"
  by (simp add: read_fields_one_integer one_integer_seen read_fields_with_one_integer
        resolve_def resolve_field_storage_type)

lemma scan_remaining:
  "0 < limit \<Longrightarrow> count \<le> limit \<Longrightarrow>
   snd (scan items expand limit collapse count records st) = drop (nat (limit - count) + 1) records"
proof (induction records arbitrary: count st)
  case Nil
  then show ?case by simp
next
  case (Cons r rs)
  show ?case
  proof (cases "count = limit")
    case True
    with Cons.prems show ?thesis by (simp add: Let_def)
  next
    case False
    with Cons.prems have lt: "count + 1 \<le> limit" by simp
    have "nat (limit - count) = Suc (nat (limit - (count + 1)))"
      using lt by simp
    then show ?thesis
      using Cons.IH [OF Cons.prems(1) lt] False Cons.prems by (simp add: Let_def)
  qed
qed

lemma read_fields_takes_one_more:
  assumes "0 < limit"
    and "read_fields_with report items expand records limit collapse = Inr (fs, remaining)"
  shows "remaining = drop (nat limit + 1) records"
  using assms scan_remaining [of limit 0 items expand collapse records "([], [])"]
  by (auto simp: read_fields_with_def split: prod.splits sum.splits)

text \<open>
  C4. The code at the limit 1 and a stream of three records with the keys \<^verbatim>\<open>a\<close>, \<^verbatim>\<open>b\<close> and
  \<^verbatim>\<open>c\<close>: two records are taken from the stream and probed, so the field list has \<^verbatim>\<open>a\<close> and
  \<^verbatim>\<open>b\<close>, and one record is left, where the claim has exactly one record consumed.
\<close>

theorem read_fields_limit_one_more:
  "read_fields False
     [[(''a'', Leaf (AInt 1))], [(''b'', Leaf (AInt 2))], [(''c'', Leaf (AInt 3))]] 1 False =
   Inr ([\<lparr>name = AStr ''a'', label = ANone, storage_type = AStr ''unknown'',
           analytical_type = ANone, concrete_storage_type = AStr ''int'',
           missing_values = ANone\<rparr>,
         \<lparr>name = AStr ''b'', label = ANone, storage_type = AStr ''unknown'',
           analytical_type = ANone, concrete_storage_type = AStr ''int'',
           missing_values = ANone\<rparr>],
        [[(''c'', Leaf (AInt 3))]])"
  by (simp add: read_fields_def read_fields_with_def probe_value_def full_key_def probe_def
        FieldTypeProbe_init_def resolve_def resolve_field_def unique_storage_type_def unique_kind_def
        Field_named_def Field_init_def)
section \<open>The record path transform: round trip and collisions\<close>

lemma join_Cons: "xs \<noteq> [] \<Longrightarrow> join sep (p # xs) = p @ sep @ join sep xs"
  by (cases xs) auto

lemma split_from_nonempty: "split_from sep seg s \<noteq> []"
  by (induction sep seg s rule: split_from.induct) auto

lemma join_split_from: "join sep (split_from sep seg s) = seg @ s"
proof (induction sep seg s rule: split_from.induct)
  case (1 sep seg)
  show ?case by simp
next
  case (2 sep seg c cs)
  show ?case
  proof (cases "sep \<noteq> [] \<and> prefix sep (c # cs)")
    case True
    then have "sep @ drop (length sep) (c # cs) = c # cs"
      by (metis append_eq_conv_conj prefix_def)
    with True 2(1) show ?thesis
      by (simp add: join_Cons split_from_nonempty del: split_from.simps(2))
        (simp add: split_from.simps(2) join_Cons split_from_nonempty)
  next
    case False
    with 2(2) show ?thesis by auto
  qed
qed

lemma join_key_path: "join sep (key_path sep key) = key"
  by (simp add: key_path_def join_split_from)

lemma key_path_inj: "key_path sep k = key_path sep k' \<Longrightarrow> k = k'"
  by (metis join_key_path)

lemma path_key_Some:
  "r \<noteq> [] \<Longrightarrow> path_key sep (Some r) p = (if p = [] then r else r @ sep @ join sep p)"
proof (induction p arbitrary: r)
  case Nil
  show ?case by simp
next
  case (Cons k ks)
  have "path_key sep (Some r) (k # ks) = path_key sep (Some (r @ sep @ k)) ks"
    using Cons.prems by (simp add: collapsed_key_def)
  also have "\<dots> = (if ks = [] then r @ sep @ k else (r @ sep @ k) @ sep @ join sep ks)"
    using Cons.prems by (intro Cons.IH) simp
  also have "\<dots> = r @ sep @ join sep (k # ks)"
    by (simp add: join_Cons)
  finally show ?case by simp
qed

lemma path_key_None:
  assumes "p \<noteq> []" and "hd p \<noteq> []"
  shows "path_key sep None p = join sep p"
proof -
  from assms obtain k ks where p: "p = k # ks" "k \<noteq> []" by (cases p) auto
  then show ?thesis
    by (simp add: collapsed_key_def path_key_Some join_Cons)
qed

lemma map_of_dict_update:
  "map_of (dict_update result other) = map_of result ++ map_of (rev other)"
  unfolding dict_update_def
proof (induction other arbitrary: result)
  case Nil
  show ?case by simp
next
  case (Cons x other)
  obtain k v where x: "x = (k, v)" by (cases x)
  have "map_of (fold (\<lambda>(k, v). AList.update k v) (x # other) result)
        = map_of (AList.update k v result) ++ map_of (rev other)"
    using Cons.IH [of "AList.update k v result"] by (simp add: x)
  also have "\<dots> = map_of result ++ map_of (rev (x # other))"
    by (simp add: x update_conv' map_add_upd_left fun_eq_iff map_add_def split: option.splits)
  finally show ?case .
qed

lemma map_of_rev_distinct: "distinct (map fst xs) \<Longrightarrow> map_of (rev xs) = map_of xs"
  by (subst map_of_inject_set) (simp_all add: rev_map [symmetric])

lemma flat_of_simps:
  "flat_of sep root [] = []"
  "flat_of sep root ((k, Leaf a) # rest) = (collapsed_key root sep k, Leaf a) # flat_of sep root rest"
  "flat_of sep root ((k, Dict d) # rest)
     = flat_of sep (Some (collapsed_key root sep k)) d @ flat_of sep root rest"
  by (simp_all add: flat_of_def case_prod_unfold comp_def)

lemma collapse_items_map:
  "map_of (collapse_items d sep root result) = map_of result ++ map_of (rev (flat_of sep root d))"
proof (induction d sep root result rule: collapse_items.induct)
  case (1 sep root result)
  show ?case by (simp add: flat_of_simps)
next
  case (2 key a rest sep root result)
  then show ?case
    by (simp add: flat_of_simps update_conv' fun_eq_iff map_add_def split: option.splits)
next
  case (3 key d rest sep root result)
  let ?c = "collapse_items d sep (Some (collapsed_key root sep key)) []"
  have "distinct (map fst ?c)"
    by (rule collapse_items_distinct) simp
  then have "map_of (rev ?c) = map_of ?c"
    by (rule map_of_rev_distinct)
  with 3 show ?case
    by (simp add: flat_of_simps map_of_dict_update)
qed

lemma lookup_leaf_Cons:
  "lookup_leaf d (k # ks) =
     (case map_of d k of
        None \<Rightarrow> None
      | Some (Leaf a) \<Rightarrow> if ks = [] then Some a else None
      | Some (Dict s) \<Rightarrow> if ks = [] then None else lookup_leaf s ks)"
  by (cases ks) (auto split: option.splits pyval.splits)

lemma lookup_leaf_empty [simp]: "lookup_leaf [] p = None"
  by (cases p) (simp_all add: lookup_leaf_Cons)

lemma set_path_effect:
  "set_path d p (Leaf a) = Inr d' \<Longrightarrow>
   lookup_leaf d' q = (if q = p then Some a else if prefix p q then None else lookup_leaf d q)"
proof (induction d p "Leaf a :: 'a pyval" arbitrary: d' q rule: set_path.induct)
  case (1 current)
  then show ?case by simp
next
  case (2 current final)
  then have d': "d' = AList.update final (Leaf a) current" by simp
  show ?case
  proof (cases q)
    case Nil
    then show ?thesis by simp
  next
    case (Cons k ks)
    then show ?thesis
      by (auto simp: d' lookup_leaf_Cons update_conv' split: option.splits pyval.splits)
  qed
next
  case (3 current part r1 rest)
  show ?case
  proof (cases q)
    case Nil
    then show ?thesis by simp
  next
    case (Cons k ks)
    show ?thesis
    proof (cases "map_of current part")
      case None
      with 3(3) obtain sub where sub: "set_path [] (r1 # rest) (Leaf a) = Inr sub"
        and d': "d' = AList.update part (Dict sub) current"
        by (auto split: sum.splits)
      from 3(1) [OF None sub, of ks]
      have "lookup_leaf sub ks = (if ks = r1 # rest then Some a else None)"
        by simp
      then show ?thesis
        using None
        by (auto simp: Cons d' lookup_leaf_Cons update_conv' split: option.splits pyval.splits)
    next
      case (Some x)
      show ?thesis
      proof (cases x)
        case (Leaf b)
        with Some 3(3) show ?thesis by simp
      next
        case (Dict s)
        with Some 3(3) obtain sub where sub: "set_path s (r1 # rest) (Leaf a) = Inr sub"
          and d': "d' = AList.update part (Dict sub) current"
          by (auto split: sum.splits)
        from 3(2) [OF Some Dict sub, of ks]
        have "lookup_leaf sub ks
              = (if ks = r1 # rest then Some a
                 else if prefix (r1 # rest) ks then None else lookup_leaf s ks)" .
        then show ?thesis
          using Some Dict
          by (auto simp: Cons d' lookup_leaf_Cons update_conv' split: option.splits pyval.splits)
      qed
    qed
  qed
qed

lemma blocked_empty [simp]: "\<not> blocked [] p"
  by (simp add: blocked_def)

lemma blocked_single [simp]: "\<not> blocked d [k]"
proof -
  have "lookup_leaf d q = None" if "strict_prefix q [k]" for q
    using that by (cases q) auto
  then show ?thesis unfolding blocked_def by auto
qed

lemma blocked_Cons:
  "ks \<noteq> [] \<Longrightarrow>
   blocked d (k # ks) =
     (case map_of d k of
        None \<Rightarrow> False
      | Some (Leaf a) \<Rightarrow> True
      | Some (Dict s) \<Rightarrow> blocked s ks)"
proof -
  assume ks: "ks \<noteq> []"
  have sp: "strict_prefix q (k # ks) \<longleftrightarrow> q = [] \<or> (\<exists>q'. q = k # q' \<and> strict_prefix q' ks)" for q
    by (cases q) auto
  show ?thesis
  proof (cases "map_of d k")
    case None
    then show ?thesis
      by (auto simp: blocked_def sp lookup_leaf_Cons)
  next
    case (Some x)
    show ?thesis
    proof (cases x)
      case (Leaf a)
      have "strict_prefix [k] (k # ks)" using ks by (cases ks) auto
      moreover have "lookup_leaf d [k] \<noteq> None" using Some Leaf by simp
      ultimately have "blocked d (k # ks)" unfolding blocked_def by blast
      then show ?thesis using Some Leaf by simp
    next
      case (Dict s)
      have "blocked d (k # ks) \<longleftrightarrow> blocked s ks"
      proof
        assume "blocked d (k # ks)"
        then obtain q where q: "strict_prefix q (k # ks)" "lookup_leaf d q \<noteq> None"
          by (auto simp: blocked_def)
        from q(2) have "q \<noteq> []" by auto
        with q(1) obtain q' where q': "q = k # q'" "strict_prefix q' ks" by (auto simp: sp)
        with q(2) Some Dict have "lookup_leaf s q' \<noteq> None"
          by (auto simp: lookup_leaf_Cons split: if_splits)
        with q'(2) show "blocked s ks" by (auto simp: blocked_def)
      next
        assume "blocked s ks"
        then obtain q' where q': "strict_prefix q' ks" "lookup_leaf s q' \<noteq> None"
          by (auto simp: blocked_def)
        from q'(2) have "q' \<noteq> []" by auto
        then have "lookup_leaf d (k # q') \<noteq> None"
          using q'(2) Some Dict by (simp add: lookup_leaf_Cons)
        moreover have "strict_prefix (k # q') (k # ks)" using q'(1) by simp
        ultimately show "blocked d (k # ks)" unfolding blocked_def by blast
      qed
      then show ?thesis using Some Dict by simp
    qed
  qed
qed

lemma set_path_fails_iff:
  "p \<noteq> [] \<Longrightarrow>
   (blocked d p \<longrightarrow> set_path d p v = Inl TypeError) \<and>
   (\<not> blocked d p \<longrightarrow> (\<exists>d'. set_path d p v = Inr d'))"
proof (induction d p v rule: set_path.induct)
  case (1 current val)
  then show ?case by simp
next
  case (2 current final val)
  show ?case by simp
next
  case (3 current part r1 rest val)
  show ?case
  proof (cases "map_of current part")
    case None
    from 3(1) [OF None] obtain sub where "set_path [] (r1 # rest) val = Inr sub"
      by auto
    with None show ?thesis
      by (simp add: blocked_Cons)
  next
    case (Some x)
    show ?thesis
    proof (cases x)
      case (Leaf b)
      with Some show ?thesis by (simp add: blocked_Cons)
    next
      case (Dict s)
      from 3(2) [OF Some Dict] have ih:
        "blocked s (r1 # rest) \<longrightarrow> set_path s (r1 # rest) val = Inl TypeError"
        "\<not> blocked s (r1 # rest) \<longrightarrow> (\<exists>d'. set_path s (r1 # rest) val = Inr d')"
        by simp_all
      show ?thesis
      proof (cases "blocked s (r1 # rest)")
        case True
        with ih(1) Some Dict show ?thesis by (simp add: blocked_Cons)
      next
        case False
        with ih(2) obtain sub where "set_path s (r1 # rest) val = Inr sub" by blast
        with False Some Dict show ?thesis by (simp add: blocked_Cons)
      qed
    qed
  qed
qed

lemma set_update_subset: "set (AList.update k v d) \<subseteq> insert (k, v) (set d)"
  by (induction d) auto

lemma wf_update:
  "wf_val (Dict d) \<Longrightarrow> wf_val v \<Longrightarrow> wf_val (Dict (AList.update k v d))"
  using set_update_subset [of k v d] by (auto simp: distinct_update)

lemma set_path_wf:
  "wf_val (Dict d) \<Longrightarrow> wf_val v \<Longrightarrow> set_path d p v = Inr d' \<Longrightarrow> wf_val (Dict d')"
proof (induction d p v arbitrary: d' rule: set_path.induct)
  case (1 current val)
  then show ?case by simp
next
  case (2 current final val)
  then have "d' = AList.update final val current" by simp
  with 2 show ?case by (simp only: wf_update)
next
  case (3 current part r1 rest val)
  show ?case
  proof (cases "map_of current part")
    case None
    with 3(5) obtain sub where sub: "set_path [] (r1 # rest) val = Inr sub"
      and d': "d' = AList.update part (Dict sub) current"
      by (auto split: sum.splits)
    have "wf_val (Dict sub)"
      using 3(1) [OF None _ 3(4) sub] by simp
    with 3(3) show ?thesis unfolding d' by (rule wf_update)
  next
    case (Some x)
    show ?thesis
    proof (cases x)
      case (Leaf b)
      with Some 3(5) show ?thesis by simp
    next
      case (Dict s)
      with Some 3(5) obtain sub where sub: "set_path s (r1 # rest) val = Inr sub"
        and d': "d' = AList.update part (Dict sub) current"
        by (auto split: sum.splits)
      from Some Dict have "(part, Dict s) \<in> set current" by (simp add: map_of_SomeD)
      with 3(3) have "wf_val (Dict s)" by force
      then have "wf_val (Dict sub)"
        using 3(2) [OF Some Dict _ 3(4) sub] by simp
      with 3(3) show ?thesis unfolding d' by (rule wf_update)
    qed
  qed
qed

lemma leaf_paths_hd:
  "(p, a) \<in> set (leaf_paths d) \<Longrightarrow> p \<noteq> [] \<and> hd p \<in> fst ` set d"
  by (induction d arbitrary: p rule: leaf_paths.induct) auto

lemma leaf_paths_lookup:
  "wf_val (Dict d) \<Longrightarrow> ((p, a) \<in> set (leaf_paths d)) = (lookup_leaf d p = Some a)"
proof (induction d arbitrary: p rule: leaf_paths.induct)
  case 1
  show ?case by simp
next
  case (2 k b rest)
  then have wf: "wf_val (Dict rest)" and fresh: "k \<notin> fst ` set rest" by auto
  note ih = 2(1) [OF wf]
  show ?case
  proof (cases p)
    case Nil
    then show ?thesis using leaf_paths_hd [of "[]" a rest] by auto
  next
    case (Cons k' ks)
    show ?thesis
    proof (cases "k' = k")
      case True
      have "(k # ks, a) \<notin> set (leaf_paths rest)"
        using leaf_paths_hd [of "k # ks" a rest] fresh by auto
      then show ?thesis
        by (auto simp: Cons True lookup_leaf_Cons)
    next
      case False
      then show ?thesis
        using ih [of p] by (simp add: Cons lookup_leaf_Cons)
    qed
  qed
next
  case (3 k s rest)
  then have wf: "wf_val (Dict rest)" and wfs: "wf_val (Dict s)"
    and fresh: "k \<notin> fst ` set rest" by auto
  note ih_s = 3(1) [OF wfs] and ih = 3(2) [OF wf]
  show ?case
  proof (cases p)
    case Nil
    then show ?thesis using leaf_paths_hd [of "[]" a rest] by auto
  next
    case (Cons k' ks)
    show ?thesis
    proof (cases "k' = k")
      case True
      have "(k # ks, a) \<notin> set (leaf_paths rest)"
        using leaf_paths_hd [of "k # ks" a rest] fresh by auto
      moreover have "([], a) \<notin> set (leaf_paths s)"
        using leaf_paths_hd [of "[]" a s] by auto
      ultimately show ?thesis
        using ih_s [of ks]
        by (auto simp: Cons True lookup_leaf_Cons)
    next
      case False
      then show ?thesis
        using ih [of p] by (auto simp: Cons lookup_leaf_Cons)
    qed
  qed
qed

lemma set_flat_of:
  "wf_val (Dict e) \<Longrightarrow>
   set (flat_of sep root e) = {(path_key sep root p, Leaf a) | p a. lookup_leaf e p = Some a}"
  by (auto simp: flat_of_def leaf_paths_lookup image_iff)

lemma map_of_eq_of_set:
  assumes "distinct (map fst r)" and "set xs = set r"
  shows "map_of xs = map_of r"
proof
  fix k
  show "map_of xs k = map_of r k"
  proof (cases "map_of xs k")
    case None
    then have "k \<notin> fst ` set xs" by (simp add: map_of_eq_None_iff)
    then have "k \<notin> fst ` set r" using assms(2) by simp
    then have "map_of r k = None" by (simp add: map_of_eq_None_iff)
    with None show ?thesis by simp
  next
    case (Some v)
    then have "(k, v) \<in> set r" using assms(2) by (auto dest: map_of_SomeD)
    with assms(1) show ?thesis using Some by simp
  qed
qed

lemma expand_items_append:
  "expand_items (xs @ ys) sep result =
     (case expand_items xs sep result of Inl e \<Rightarrow> Inl e | Inr res \<Rightarrow> expand_items ys sep res)"
  by (induction xs sep result rule: expand_items.induct) (auto split: sum.splits)

lemma expand_items_single:
  "sep \<noteq> [] \<Longrightarrow>
   expand_items [(k, v)] sep e =
     (case set_path e (key_path sep k) v of Inl err \<Rightarrow> Inl err | Inr e' \<Rightarrow> Inr e')"
  by (simp add: py_split_def key_path_def split: sum.splits)

lemma key_path_nonempty [simp]: "key_path sep k \<noteq> []"
  by (simp add: key_path_def split_from_nonempty)

lemma flat_items: "flat r \<Longrightarrow> (k, v) \<in> set r \<Longrightarrow> \<exists>a. v = Leaf a"
  by (cases v) (auto simp: flat_def list_all_iff)

lemma collision_freeD:
  "collision_free sep r \<Longrightarrow> k \<in> fst ` set r \<Longrightarrow> k' \<in> fst ` set r \<Longrightarrow>
   \<not> strict_prefix (key_path sep k) (key_path sep k')"
  by (auto simp: collision_free_def list_all_iff)

lemma collision_free_butlast: "collision_free sep (r @ [x]) \<Longrightarrow> collision_free sep r"
  by (auto simp: collision_free_def list_all_iff)

lemma expand_items_leaves:
  assumes "flat r" and "sep \<noteq> []" and "distinct (map fst r)" and "collision_free sep r"
  shows "\<exists>e. expand_items r sep [] = Inr e \<and> wf_val (Dict e) \<and>
             (\<forall>q a. (lookup_leaf e q = Some a) = (\<exists>k. (k, Leaf a) \<in> set r \<and> key_path sep k = q))"
  using assms
proof (induction r rule: rev_induct)
  case Nil
  show ?case by simp
next
  case (snoc x r)
  obtain k v where x: "x = (k, v)" by (cases x)
  from snoc.prems(1) x obtain a where v: "v = Leaf a"
    using flat_items [of "r @ [x]" k v] by auto
  from snoc.prems have "flat r" "distinct (map fst r)" "collision_free sep r"
    by (auto simp: flat_def dest: collision_free_butlast)
  from snoc.IH [OF this(1) snoc.prems(2) this(2,3)] obtain e where
    e: "expand_items r sep [] = Inr e" and wf: "wf_val (Dict e)"
    and leaves: "\<And>q b. (lookup_leaf e q = Some b) = (\<exists>k'. (k', Leaf b) \<in> set r \<and> key_path sep k' = q)"
    by blast
  let ?p = "key_path sep k"
  have fresh: "k \<notin> fst ` set r" using snoc.prems(3) x by auto
  have free: "\<not> strict_prefix (key_path sep k1) (key_path sep k2)"
    if "k1 \<in> insert k (fst ` set r)" "k2 \<in> insert k (fst ` set r)" for k1 k2
    using collision_freeD [OF snoc.prems(4), of k1 k2] that x by auto
  have "\<not> blocked e ?p"
  proof
    assume "blocked e ?p"
    then obtain q b where q: "strict_prefix q ?p" "lookup_leaf e q = Some b"
      by (auto simp: blocked_def)
    from q(2) leaves obtain k' where "(k', Leaf b) \<in> set r" "key_path sep k' = q" by blast
    with q(1) free [of k' k] show False by force
  qed
  with set_path_fails_iff [of ?p e "Leaf a"] obtain e' where
    e': "set_path e ?p (Leaf a) = Inr e'" by auto
  have ex: "expand_items (r @ [x]) sep [] = Inr e'"
    using e e' snoc.prems(2) by (simp add: expand_items_append x v py_split_def key_path_def)
  have wf': "wf_val (Dict e')"
    using set_path_wf [OF wf _ e'] by simp
  have "(lookup_leaf e' q = Some b) = (\<exists>k'. (k', Leaf b) \<in> set (r @ [x]) \<and> key_path sep k' = q)"
    for q b
  proof (cases "q = ?p")
    case True
    have "k' = k" if "(k', Leaf b) \<in> set r" "key_path sep k' = ?p" for k'
      using that key_path_inj by blast
    with fresh have "\<not> (\<exists>k'. (k', Leaf b) \<in> set r \<and> key_path sep k' = ?p)" by force
    then show ?thesis
      using set_path_effect [OF e', of q] True by (auto simp: x v)
  next
    case False
    show ?thesis
    proof (cases "prefix ?p q")
      case True
      with False have sp: "strict_prefix ?p q" by (simp add: strict_prefix_def)
      have "\<not> (\<exists>k'. (k', Leaf b) \<in> set r \<and> key_path sep k' = q)"
      proof
        assume "\<exists>k'. (k', Leaf b) \<in> set r \<and> key_path sep k' = q"
        then obtain k' where "(k', Leaf b) \<in> set r" "key_path sep k' = q" by blast
        with sp free [of k k'] show False by force
      qed
      then show ?thesis
        using set_path_effect [OF e', of q] True False by (auto simp: x v)
    next
      case np: False
      show ?thesis
        using set_path_effect [OF e', of q] False np leaves [of q b] by (auto simp: x v)
    qed
  qed
  with ex wf' show ?case by blast
qed

lemma segments_okD:
  assumes "segments_ok sep k"
  shows "sep \<noteq> []" and "path_key sep None (key_path sep k) = k"
proof -
  from assms show sep: "sep \<noteq> []"
    by (auto simp: segments_ok_def py_split_def split: if_splits)
  from assms sep have "[] \<notin> set (key_path sep k)"
    by (simp add: segments_ok_def py_split_def key_path_def)
  then have "hd (key_path sep k) \<noteq> []"
    by (metis hd_in_set key_path_nonempty)
  then show "path_key sep None (key_path sep k) = k"
    by (simp add: path_key_None join_key_path)
qed

lemma collapse_of_leaves:
  assumes "flat r" and "distinct (map fst r)" and "list_all (segments_ok sep) (map fst r)"
    and wf: "wf_val (Dict e)"
    and leaves: "\<And>q a. (lookup_leaf e q = Some a) = (\<exists>k. (k, Leaf a) \<in> set r \<and> key_path sep k = q)"
  shows "map_of (collapse_record e sep None) = map_of r"
proof -
  have key: "path_key sep None (key_path sep k) = k" if "k \<in> fst ` set r" for k
    using assms(3) that by (intro segments_okD(2)) (auto simp: list_all_iff)
  have items: "set (flat_of sep None e) = set r"
  proof (rule set_eqI)
    fix x :: "string \<times> 'a pyval"
    obtain k v where x: "x = (k, v)" by (cases x)
    show "x \<in> set (flat_of sep None e) \<longleftrightarrow> x \<in> set r"
    proof
      assume "x \<in> set (flat_of sep None e)"
      then obtain p a where "k = path_key sep None p" "v = Leaf a" "lookup_leaf e p = Some a"
        by (auto simp: set_flat_of [OF wf] x)
      moreover from this(3) leaves obtain k' where "(k', Leaf a) \<in> set r" "key_path sep k' = p"
        by blast
      ultimately show "x \<in> set r"
        using key [of k'] by (force simp: x)
    next
      assume xr: "x \<in> set r"
      with assms(1) obtain a where v: "v = Leaf a"
        using flat_items [of r k v] by (auto simp: x)
      with xr leaves [of "key_path sep k" a] have "lookup_leaf e (key_path sep k) = Some a"
        by (auto simp: x)
      moreover have "path_key sep None (key_path sep k) = k"
        using xr by (intro key) (force simp: x)
      ultimately show "x \<in> set (flat_of sep None e)"
        unfolding set_flat_of [OF wf] x v by force
    qed
  qed
  have "map_of (collapse_record e sep None) = map_of (rev (flat_of sep None e))"
    by (simp add: collapse_record_def collapse_items_map)
  also have "\<dots> = map_of r"
    using assms(2) by (rule map_of_eq_of_set) (simp add: items)
  finally show ?thesis .
qed

text \<open>
  C2. For every flat record (a dictionary: each key once) whose keys split on the
  separator into segments none of which is empty, and in which no key's path is a proper
  prefix of another key's path,
  \<^verbatim>\<open>expand_record\<close> returns a record, and \<^verbatim>\<open>collapse_record\<close> of that record is the
  original again as a dictionary: the same keys, each once, with the same values.
\<close>

theorem expand_collapse_roundtrip:
  assumes "flat r" and "distinct (map fst r)"
    and "list_all (segments_ok sep) (map fst r)" and "collision_free sep r"
  shows "\<exists>e. expand_record r sep = Inr e \<and>
             map_of (collapse_record e sep None) = map_of r \<and>
             set (collapse_record e sep None) = set r \<and>
             distinct (map fst (collapse_record e sep None))"
proof (cases "r = []")
  case True
  then show ?thesis
    by (simp add: expand_record_def collapse_record_def)
next
  case False
  then obtain k0 where "k0 \<in> fst ` set r" by (cases r) auto
  with assms(3) have "segments_ok sep k0" by (auto simp: list_all_iff)
  then have sep: "sep \<noteq> []" by (rule segments_okD)
  from expand_items_leaves [OF assms(1) sep assms(2,4)] obtain e where
    e: "expand_items r sep [] = Inr e" and wf: "wf_val (Dict e)"
    and leaves: "\<And>q a. (lookup_leaf e q = Some a) = (\<exists>k. (k, Leaf a) \<in> set r \<and> key_path sep k = q)"
    by blast
  from assms(1-3) wf leaves have maps: "map_of (collapse_record e sep None) = map_of r"
    by (rule collapse_of_leaves)
  have dist: "distinct (map fst (collapse_record e sep None))"
    unfolding collapse_record_def by (rule collapse_items_distinct) simp
  from maps dist assms(2) have "set (collapse_record e sep None) = set r"
    by (simp add: map_of_inject_set)
  with e maps dist show ?thesis
    by (simp add: expand_record_def)
qed

theorem expand_collapse_roundtrip_witness:
  "flat [(''a.b'', Leaf (1::int)), (''c'', Leaf 2), (''a.d.e'', Leaf 3)] \<and>
   distinct (map fst [(''a.b'', Leaf (1::int)), (''c'', Leaf 2), (''a.d.e'', Leaf 3)]) \<and>
   list_all (segments_ok ''.'') (map fst [(''a.b'', Leaf (1::int)), (''c'', Leaf 2), (''a.d.e'', Leaf 3)]) \<and>
   collision_free ''.'' [(''a.b'', Leaf (1::int)), (''c'', Leaf 2), (''a.d.e'', Leaf 3)] \<and>
   (\<exists>e. expand_record [(''a.b'', Leaf (1::int)), (''c'', Leaf 2), (''a.d.e'', Leaf 3)] ''.'' = Inr e \<and>
        set (collapse_record e ''.'' None)
          = set [(''a.b'', Leaf (1::int)), (''c'', Leaf 2), (''a.d.e'', Leaf 3)])"
proof -
  let ?r = "[(''a.b'', Leaf (1::int)), (''c'', Leaf 2), (''a.d.e'', Leaf 3)]"
  have 1: "flat ?r" by (simp add: flat_def)
  have 2: "distinct (map fst ?r)" by simp
  have 3: "list_all (segments_ok ''.'') (map fst ?r)"
    by (simp add: segments_ok_def py_split_def)
  have 4: "collision_free ''.'' ?r"
    by (simp add: collision_free_def key_path_def)
  from expand_collapse_roundtrip [OF 1 2 3 4] 1 2 3 4 show ?thesis by blast
qed

text \<open>
  The round trip does not depend on the order in which the expanded record yields its
  items: every dictionary with the leaves of the expanded record collapses to the
  original.
\<close>

lemma expand_collapse_any_order:
  assumes "flat r" and "distinct (map fst r)"
    and "list_all (segments_ok sep) (map fst r)" and "collision_free sep r"
    and "expand_record r sep = Inr e"
    and "wf_val (Dict e')" and "\<And>q. lookup_leaf e' q = lookup_leaf e q"
  shows "map_of (collapse_record e' sep None) = map_of r"
proof (cases "r = []")
  case True
  with assms(5) have "e = []" by (simp add: expand_record_def)
  have "leaf_paths e' = []"
  proof (rule ccontr)
    assume "leaf_paths e' \<noteq> []"
    then obtain p a where "(p, a) \<in> set (leaf_paths e')" by (cases "leaf_paths e'") auto
    with assms(6) have "lookup_leaf e' p = Some a" by (simp add: leaf_paths_lookup)
    with assms(7) [of p] \<open>e = []\<close> show False by simp
  qed
  then show ?thesis
    using True by (simp add: collapse_record_def collapse_items_map flat_of_def)
next
  case False
  then obtain k0 where "k0 \<in> fst ` set r" by (cases r) auto
  with assms(3) have "segments_ok sep k0" by (auto simp: list_all_iff)
  then have sep: "sep \<noteq> []" by (rule segments_okD)
  from expand_items_leaves [OF assms(1) sep assms(2,4)] assms(5) have
    "\<And>q a. (lookup_leaf e q = Some a) = (\<exists>k. (k, Leaf a) \<in> set r \<and> key_path sep k = q)"
    by (auto simp: expand_record_def)
  then have "\<And>q a. (lookup_leaf e' q = Some a) = (\<exists>k. (k, Leaf a) \<in> set r \<and> key_path sep k = q)"
    by (simp add: assms(7))
  with assms(1-3,6) show ?thesis by (rule collapse_of_leaves)
qed

lemma prefix_visited_first_snoc:
  "prefix_visited_first sep (r @ [x]) =
     (prefix_visited_first sep r \<or>
      (\<exists>k' \<in> fst ` set r. strict_prefix (key_path sep k') (key_path sep (fst x))))"
  by (induction r) (auto simp: list_ex_iff)

lemma expand_items_error:
  "expand_items xs sep result = Inl err \<Longrightarrow>
   expand_items (xs @ ys) sep result = Inl err"
  by (simp add: expand_items_append)

lemma expand_items_outcome:
  assumes "flat r" and "sep \<noteq> []"
  shows "(prefix_visited_first sep r \<longrightarrow> expand_items r sep [] = Inl TypeError) \<and>
         (\<not> prefix_visited_first sep r \<longrightarrow>
            (\<exists>e. expand_items r sep [] = Inr e \<and>
                 (\<forall>q a. lookup_leaf e q = Some a \<longrightarrow> q \<in> key_path sep ` fst ` set r) \<and>
                 (\<forall>k \<in> fst ` set r. \<exists>q. prefix q (key_path sep k) \<and> lookup_leaf e q \<noteq> None)))"
  using assms(1)
proof (induction r rule: rev_induct)
  case Nil
  show ?case by simp
next
  case (snoc x r)
  obtain k v where x: "x = (k, v)" by (cases x)
  from snoc.prems x obtain a where v: "v = Leaf a"
    using flat_items [of "r @ [x]" k v] by auto
  from snoc.prems have "flat r" by (simp add: flat_def)
  note ih = snoc.IH [OF this]
  let ?p = "key_path sep k"
  show ?case
  proof (cases "prefix_visited_first sep r")
    case True
    with ih have "expand_items r sep [] = Inl TypeError" by simp
    then have "expand_items (r @ [x]) sep [] = Inl TypeError" by (rule expand_items_error)
    with True show ?thesis by (simp add: prefix_visited_first_snoc)
  next
    case False
    with ih have "\<exists>e. expand_items r sep [] = Inr e \<and>
                 (\<forall>q a. lookup_leaf e q = Some a \<longrightarrow> q \<in> key_path sep ` fst ` set r) \<and>
                 (\<forall>k \<in> fst ` set r. \<exists>q. prefix q (key_path sep k) \<and> lookup_leaf e q \<noteq> None)"
      by simp
    then obtain e where e: "expand_items r sep [] = Inr e"
      and above0: "\<forall>q a. lookup_leaf e q = Some a \<longrightarrow> q \<in> key_path sep ` fst ` set r"
      and below0: "\<forall>k \<in> fst ` set r. \<exists>q. prefix q (key_path sep k) \<and> lookup_leaf e q \<noteq> None"
      by (elim exE conjE)
    have above: "q \<in> key_path sep ` fst ` set r" if "lookup_leaf e q = Some b" for q b
      using above0 that by (elim allE [of _ q] allE [of _ b] impE)
    have below: "\<exists>q. prefix q (key_path sep k') \<and> lookup_leaf e q \<noteq> None"
      if "k' \<in> fst ` set r" for k'
      using below0 that by (rule bspec)
    have step: "expand_items (r @ [x]) sep [] = set_path e ?p (Leaf a)"
      using e assms(2)
      by (simp add: expand_items_append x v py_split_def key_path_def split: sum.splits)
    have blocked_iff:
      "blocked e ?p \<longleftrightarrow> (\<exists>k' \<in> fst ` set r. strict_prefix (key_path sep k') ?p)"
    proof
      assume "blocked e ?p"
      then obtain q b where "strict_prefix q ?p" "lookup_leaf e q = Some b"
        by (auto simp: blocked_def)
      with above [of q b] show "\<exists>k' \<in> fst ` set r. strict_prefix (key_path sep k') ?p"
        by auto
    next
      assume "\<exists>k' \<in> fst ` set r. strict_prefix (key_path sep k') ?p"
      then obtain k' where k': "k' \<in> fst ` set r" "strict_prefix (key_path sep k') ?p"
        by blast
      from below [OF k'(1)] obtain q where
        q: "prefix q (key_path sep k')" "lookup_leaf e q \<noteq> None" by blast
      from q(1) k'(2) have "strict_prefix q ?p"
        by (metis prefix_order.le_less_trans)
      with q(2) show "blocked e ?p" unfolding blocked_def by blast
    qed
    have pvf: "prefix_visited_first sep (r @ [x]) = blocked e ?p"
      using False by (simp add: prefix_visited_first_snoc blocked_iff x)
    show ?thesis
    proof (cases "blocked e ?p")
      case True
      have "?p \<noteq> []" by simp
      from set_path_fails_iff [OF this, of e "Leaf a"] True
      have "set_path e ?p (Leaf a) = Inl TypeError" by simp
      with step pvf True show ?thesis by simp
    next
      case nb: False
      have "?p \<noteq> []" by simp
      from set_path_fails_iff [OF this, of e "Leaf a"] nb
      have "\<exists>d'. set_path e ?p (Leaf a) = Inr d'" by simp
      then obtain e' where e': "set_path e ?p (Leaf a) = Inr e'" ..
      note eff = set_path_effect [OF e']
      have above': "q \<in> key_path sep ` fst ` set (r @ [x])" if "lookup_leaf e' q = Some b" for q b
      proof (cases "q = ?p")
        case True
        then show ?thesis by (simp add: x)
      next
        case False
        with that eff [of q] have "lookup_leaf e q = Some b"
          by (auto split: if_splits)
        from above [OF this] show ?thesis by auto
      qed
      have below': "\<exists>q. prefix q (key_path sep k') \<and> lookup_leaf e' q \<noteq> None"
        if "k' \<in> fst ` set (r @ [x])" for k'
      proof (cases "k' = k")
        case True
        have "lookup_leaf e' ?p \<noteq> None" using eff [of ?p] by simp
        with True show ?thesis by blast
      next
        case False
        with that x have "k' \<in> fst ` set r" by auto
        from below [OF this] obtain q where
          q: "prefix q (key_path sep k')" "lookup_leaf e q \<noteq> None" by blast
        show ?thesis
        proof (cases "prefix ?p q")
          case True
          from True q(1) have "prefix ?p (key_path sep k')" by (rule prefix_order.trans)
          moreover have "lookup_leaf e' ?p \<noteq> None" using eff [of ?p] by simp
          ultimately show ?thesis by blast
        next
          case np: False
          then have "q \<noteq> ?p" by auto
          with np q(2) eff [of q] have "lookup_leaf e' q \<noteq> None" by simp
          with q(1) show ?thesis by blast
        qed
      qed
      have "\<not> prefix_visited_first sep (r @ [x])" using nb pvf by simp
      moreover have "\<exists>e. expand_items (r @ [x]) sep [] = Inr e \<and>
                 (\<forall>q a. lookup_leaf e q = Some a \<longrightarrow> q \<in> key_path sep ` fst ` set (r @ [x])) \<and>
                 (\<forall>k \<in> fst ` set (r @ [x]).
                    \<exists>q. prefix q (key_path sep k) \<and> lookup_leaf e q \<noteq> None)"
      proof (intro exI [of _ e'] conjI allI impI ballI)
        show "expand_items (r @ [x]) sep [] = Inr e'" using step e' by simp
      next
        fix q b assume "lookup_leaf e' q = Some b"
        then show "q \<in> key_path sep ` fst ` set (r @ [x])" by (rule above')
      next
        fix k' assume "k' \<in> fst ` set (r @ [x])"
        then show "\<exists>q. prefix q (key_path sep k') \<and> lookup_leaf e' q \<noteq> None" by (rule below')
      qed
      ultimately show ?thesis by simp
    qed
  qed
qed

text \<open>
  C7, as amended. For every flat record and non-empty separator, \<^verbatim>\<open>expand_record\<close> fails
  exactly when some key is visited after a key whose path is a proper prefix of its own;
  the error is the \<^verbatim>\<open>TypeError\<close> of treating the value there as a dictionary. In every
  other case, also when such a prefix key is visited after the longer key, it returns a
  record.
\<close>

theorem expand_record_fails_iff:
  assumes "flat r" and "sep \<noteq> []"
  shows "(prefix_visited_first sep r \<longrightarrow> expand_record r sep = Inl TypeError) \<and>
         (\<not> prefix_visited_first sep r \<longrightarrow> (\<exists>e. expand_record r sep = Inr e))"
  using expand_items_outcome [OF assms] unfolding expand_record_def by blast

theorem expand_record_fails_iff_witness:
  "flat [(''a'', Leaf (1::int)), (''a.b'', Leaf 2)] \<and> ''.'' \<noteq> [] \<and>
   prefix_visited_first ''.'' [(''a'', Leaf (1::int)), (''a.b'', Leaf 2)] \<and>
   expand_record [(''a'', Leaf (1::int)), (''a.b'', Leaf 2)] ''.'' = Inl TypeError \<and>
   flat [(''b.a'', Leaf (1::int)), (''b'', Leaf 2)] \<and>
   \<not> prefix_visited_first ''.'' [(''b.a'', Leaf (1::int)), (''b'', Leaf 2)] \<and>
   (\<exists>e. expand_record [(''b.a'', Leaf (1::int)), (''b'', Leaf 2)] ''.'' = Inr e)"
proof -
  let ?r1 = "[(''a'', Leaf (1::int)), (''a.b'', Leaf 2)]"
  let ?r2 = "[(''b.a'', Leaf (1::int)), (''b'', Leaf 2)]"
  have f1: "flat ?r1" and f2: "flat ?r2" by (simp_all add: flat_def)
  have sep: "''.'' \<noteq> []" by simp
  have v1: "prefix_visited_first ''.'' ?r1" by (simp add: key_path_def)
  have v2: "\<not> prefix_visited_first ''.'' ?r2" by (simp add: key_path_def)
  from expand_record_fails_iff [OF f1 sep] expand_record_fails_iff [OF f2 sep] f1 f2 v1 v2
  show ?thesis by simp
qed

text \<open>
  C7 as stated fails: in the record \<^verbatim>\<open>{"b.a": 1, "b": 2}\<close>, whose items a dictionary of
  CPython 2 yields in this order, the path of \<^verbatim>\<open>b\<close> is a proper prefix of the path of
  \<^verbatim>\<open>b.a\<close>, and \<^verbatim>\<open>expand_record\<close> returns the record \<^verbatim>\<open>{"b": 2}\<close>: the value of \<^verbatim>\<open>b\<close> has
  replaced the dictionary that held \<^verbatim>\<open>a\<close>, and no error is raised.
\<close>

theorem expand_record_collision_counterexample:
  "strict_prefix (key_path ''.'' ''b'') (key_path ''.'' ''b.a'') \<and>
   expand_record [(''b.a'', Leaf (1::int)), (''b'', Leaf 2)] ''.'' = Inr [(''b'', Leaf 2)]"
  by (simp add: key_path_def expand_record_def py_split_def)

end
